theory Spec2Isabelle
  imports Complex_Main "HOL-Library.Multiset"
begin

section \<open>Python helpers used by the source\<close>

text \<open>
  Python slicing \<^verbatim>\<open>xs[a:b]\<close> with integer bounds: a negative bound counts from the
  end, and both bounds are clamped to the list. Slicing never raises.
\<close>

definition py_slice :: "'a list \<Rightarrow> int \<Rightarrow> int \<Rightarrow> 'a list" where
  "py_slice xs a b =
     (let n = int (length xs);
          lo = (if a < 0 then max (a + n) 0 else min a n);
          hi = (if b < 0 then max (b + n) 0 else min b n)
      in take (nat (hi - lo)) (drop (nat lo) xs))"

datatype error =
    IndexError
  | ZeroDivisionError
  | LibraryError
  | EmbeddingFailed

text \<open>
  Subscripting a Python list, \<^verbatim>\<open>xs[i]\<close>: positions \<open>0 .. len - 1\<close> read from the front,
  positions \<open>-len .. -1\<close> read from the back, and any other position raises
  \<^verbatim>\<open>IndexError\<close>.
\<close>

definition py_index :: "'a list \<Rightarrow> int \<Rightarrow> error + 'a" where
  "py_index xs i =
     (if 0 \<le> i \<and> i < int (length xs) then Inr (xs ! nat i)
      else if i < 0 \<and> - int (length xs) \<le> i then Inr (xs ! nat (int (length xs) + i))
      else Inl IndexError)"

text \<open>
  \<^verbatim>\<open>str.isspace\<close> on the code points below 256, and the test
  \<^verbatim>\<open>not text or not text.strip()\<close>: the text is empty or consists of whitespace only.
  A \<^typ>\<open>char\<close> stands for one code point.
\<close>

definition py_isspace :: "char \<Rightarrow> bool" where
  "py_isspace c = (of_char c \<in> {9, 10, 11, 12, 13, 28, 29, 30, 31, 32, 133, 160 :: nat})"

definition blank :: "string \<Rightarrow> bool" where
  "blank text = list_all py_isspace text"

text \<open>\<^verbatim>\<open>str(n)\<close> for a non-negative integer, as used by the f-string \<^verbatim>\<open>f'chunk_{idx}'\<close>.\<close>

fun str_nat :: "nat \<Rightarrow> string" where
  "str_nat n =
     (if n < 10 then [char_of (48 + n)]
      else str_nat (n div 10) @ [char_of (48 + n mod 10)])"

declare str_nat.simps [simp del]

section \<open>The chunker (src/chunker.py)\<close>

text \<open>
  \<^verbatim>\<open>ENCODER\<close> is the tiktoken encoding, an external library: it is a parameter of the
  model. Each of its two methods may raise, which is the value \<open>None\<close>.
\<close>

record encoder =
  encode :: "string \<Rightarrow> nat list option"
  decode :: "nat list \<Rightarrow> string option"

record chunk =
  id_chunk :: string
  text_chunk :: string
  start_token :: int
  end_token :: int

definition max_chunks :: nat where
  "max_chunks = 1000"

text \<open>
  The \<^verbatim>\<open>while\<close> loop of \<^verbatim>\<open>chunk_text\<close>. On a decode failure the loop continues
  with the next window and does not count the chunk, so \<open>idx\<close> does not grow and the
  loop may run forever: the result \<open>None\<close> is the loop that never returns.
\<close>

partial_function (option) chunk_loop ::
  "encoder \<Rightarrow> nat list \<Rightarrow> int \<Rightarrow> int \<Rightarrow> int \<Rightarrow> nat \<Rightarrow> chunk list \<Rightarrow> chunk list option"
where
  "chunk_loop enc tokens max_tokens overlap start idx chunks =
     (if start < int (length tokens) \<and> idx < max_chunks then
        (let end_t = min (start + max_tokens) (int (length tokens));
             chunk_tokens = py_slice tokens start end_t
         in case decode enc chunk_tokens of
              None \<Rightarrow> chunk_loop enc tokens max_tokens overlap (end_t - overlap) idx chunks
            | Some t \<Rightarrow>
                chunk_loop enc tokens max_tokens overlap (end_t - overlap) (idx + 1)
                  (chunks @ [\<lparr>id_chunk = ''chunk_'' @ str_nat idx, text_chunk = t,
                              start_token = start, end_token = end_t\<rparr>]))
      else Some chunks)"

declare chunk_loop.simps [code]

definition chunk_text :: "encoder \<Rightarrow> string \<Rightarrow> int \<Rightarrow> int \<Rightarrow> chunk list option" where
  "chunk_text enc text max_tokens overlap =
     (if blank text then Some []
      else case encode enc text of
             None \<Rightarrow> Some []
           | Some tokens \<Rightarrow>
               if length tokens = 0 then Some []
               else chunk_loop enc tokens max_tokens overlap 0 0 [])"

section \<open>The vector index (src/indexer.py)\<close>

text \<open>
  Vectors are lists of numbers. The source converts them to 32-bit floats; the model
  computes with exact reals, so rounding is not part of it.
\<close>

type_synonym vec = "real list"

definition inner_product :: "vec \<Rightarrow> vec \<Rightarrow> real" where
  "inner_product a b = sum_list (map2 (*) a b)"

text \<open>
  \<^verbatim>\<open>faiss.normalize_L2\<close> scales each row by the inverse of its Euclidean norm and leaves
  a row of norm zero as it is.
\<close>

definition normalize_L2 :: "vec \<Rightarrow> vec" where
  "normalize_L2 v =
     (let nr = inner_product v v
      in if nr > 0 then map (\<lambda>x. x * (1 / sqrt nr)) v else v)"

record metadata =
  md_doc_id :: string
  md_chunk_id :: string
  md_text :: string
  md_source :: string
  md_title :: string
  md_created_at :: string

text \<open>
  \<^verbatim>\<open>faiss.IndexFlatIP\<close> is an external library; the model follows its documented
  behaviour. The index keeps the added rows in order. A search for \<open>k\<close> neighbours
  returns exactly \<open>k\<close> (score, label) pairs by descending inner product; when the index
  holds fewer than \<open>k\<close> rows the missing pairs carry the label \<open>-1\<close> and the lowest
  32-bit float as score. The order among rows of equal score is fixed here as the order
  of insertion; no theorem below depends on it.
\<close>

record flat_ip =
  ip_d :: nat
  ip_xb :: "vec list"

definition neutral_score :: real where
  "neutral_score = - 340282346638528859811704183484516925440"

definition search :: "flat_ip \<Rightarrow> vec \<Rightarrow> nat \<Rightarrow> (real \<times> int) list" where
  "search ix q k =
     (let scored = map (\<lambda>(i, x). (inner_product q x, int i)) (enumerate 0 (ip_xb ix));
          ranked = sort_key (\<lambda>p. - fst p) scored
      in take k ranked @ replicate (k - length ranked) (neutral_score, - 1))"

record faiss_indexer =
  dim :: nat
  index :: flat_ip
  metadatas :: "metadata list"

definition FaissIndexer :: "nat \<Rightarrow> faiss_indexer" where
  "FaissIndexer dm = \<lparr>dim = dm, index = \<lparr>ip_d = dm, ip_xb = []\<rparr>, metadatas = []\<rparr>"

text \<open>
  \<^verbatim>\<open>add\<close>: building the array fails on an empty or ragged list of vectors, and the
  library rejects rows of the wrong dimension; in each case nothing has been stored
  yet. Otherwise the normalised rows and the metadata are appended.
\<close>

definition add :: "faiss_indexer \<Rightarrow> vec list \<Rightarrow> metadata list \<Rightarrow> error + faiss_indexer" where
  "add ix vectors metas =
     (if vectors = [] \<or> (\<exists>v \<in> set vectors. length v \<noteq> ip_d (index ix)) then Inl LibraryError
      else Inr (ix\<lparr>index := (index ix)\<lparr>ip_xb := ip_xb (index ix) @ map normalize_L2 vectors\<rparr>,
                   metadatas := metadatas ix @ metas\<rparr>))"

text \<open>
  The persisted artifacts. A file that does not exist is \<open>None\<close>; writing and reading
  a file give back the value written. The time stamp of the checkpoint information is
  the time of the clock and is left out.
\<close>

record checkpoint_info =
  ci_docs_processed :: nat
  ci_total_chunks :: nat
  ci_processed_ids_count :: nat

record disk =
  index_file :: "flat_ip option"
  meta_file :: "metadata list option"
  ids_file :: "string set option"
  info_file :: "checkpoint_info option"

definition save :: "faiss_indexer \<Rightarrow> disk \<Rightarrow> disk" where
  "save ix dk = dk\<lparr>index_file := Some (index ix), meta_file := Some (metadatas ix)\<rparr>"

definition load :: "faiss_indexer \<Rightarrow> disk \<Rightarrow> bool \<times> faiss_indexer" where
  "load ix dk =
     (case index_file dk of
        None \<Rightarrow> (False, ix)
      | Some i \<Rightarrow>
          (case meta_file dk of
             None \<Rightarrow> (False, ix)
           | Some m \<Rightarrow> (True, ix\<lparr>index := i, metadatas := m\<rparr>)))"

record result =
  score :: real
  metadata :: metadata

text \<open>
  The loop of \<^verbatim>\<open>query\<close> over the pairs of the search: a pair is kept when
  \<^verbatim>\<open>idx < len(self.metadatas)\<close>, and \<^verbatim>\<open>self.metadatas[idx]\<close> is Python indexing.
\<close>

fun collect :: "metadata list \<Rightarrow> (real \<times> int) list \<Rightarrow> error + result list" where
  "collect metas [] = Inr []"
| "collect metas ((sc, i) # rest) =
     (if i < int (length metas) then
        (case py_index metas i of
           Inl e \<Rightarrow> Inl e
         | Inr meta \<Rightarrow>
             (case collect metas rest of
                Inl e \<Rightarrow> Inl e
              | Inr results \<Rightarrow> Inr (\<lparr>score = sc, metadata = meta\<rparr> # results)))
      else collect metas rest)"

definition query :: "faiss_indexer \<Rightarrow> vec \<Rightarrow> nat \<Rightarrow> error + result list" where
  "query ix vector k =
     (if length vector \<noteq> ip_d (index ix) \<or> k = 0 then Inl LibraryError
      else collect (metadatas ix) (search (index ix) (normalize_L2 vector) k))"

section \<open>The embedding client (src/embedder.py)\<close>

text \<open>
  \<^verbatim>\<open>genai.embed_content\<close> is a remote service: a parameter of the model. Its answer
  may differ from one call to the next, so it takes the number of calls made so far;
  \<open>None\<close> is a call that raises. The number of calls is threaded through every
  function, and is returned on failure too. The pauses between calls are not modelled.
\<close>

datatype task_type = retrieval_query | retrieval_document

type_synonym service = "nat \<Rightarrow> task_type \<Rightarrow> string \<Rightarrow> vec option"

text \<open>
  The retry loop for a single text, by the number of attempts left. The result
  \<open>None\<close> is the loop that ends without returning, as \<^verbatim>\<open>range(max_retries)\<close> does
  when \<^verbatim>\<open>max_retries\<close> is zero.
\<close>

fun embed_single :: "service \<Rightarrow> string \<Rightarrow> nat \<Rightarrow> nat \<Rightarrow> (error + vec list) option \<times> nat" where
  "embed_single svc t 0 c = (None, c)"
| "embed_single svc t (Suc k) c =
     (case svc c retrieval_query t of
        Some v \<Rightarrow> (Some (Inr [v]), Suc c)
      | None \<Rightarrow>
          if k = 0 then (Some (Inl EmbeddingFailed), Suc c)
          else embed_single svc t k (Suc c))"

text \<open>One attempt on a sub-batch: the texts one by one, stopping at the first failure.\<close>

fun embed_items :: "service \<Rightarrow> string list \<Rightarrow> nat \<Rightarrow> vec list option \<times> nat" where
  "embed_items svc [] c = (Some [], c)"
| "embed_items svc (t # ts) c =
     (case svc c retrieval_document t of
        None \<Rightarrow> (None, Suc c)
      | Some v \<Rightarrow>
          (case embed_items svc ts (Suc c) of
             (None, c') \<Rightarrow> (None, c')
           | (Some vs, c') \<Rightarrow> (Some (v # vs), c')))"

text \<open>
  The retry loop for one sub-batch, by the number of attempts left; with no attempt
  at all nothing is appended for the sub-batch.
\<close>

fun embed_batch :: "service \<Rightarrow> string list \<Rightarrow> nat \<Rightarrow> nat \<Rightarrow> (error + vec list) \<times> nat" where
  "embed_batch svc batch 0 c = (Inr [], c)"
| "embed_batch svc batch (Suc k) c =
     (case embed_items svc batch c of
        (Some vs, c') \<Rightarrow> (Inr vs, c')
      | (None, c') \<Rightarrow>
          if k = 0 then (Inl EmbeddingFailed, c')
          else embed_batch svc batch k c')"

text \<open>The loop over the sub-batches of 50 texts.\<close>

function embed_batches :: "service \<Rightarrow> string list \<Rightarrow> nat \<Rightarrow> nat \<Rightarrow> (error + vec list) \<times> nat" where
  "embed_batches svc texts max_retries c =
     (if texts = [] then (Inr [], c)
      else
        (case embed_batch svc (take 50 texts) max_retries c of
           (Inl e, c') \<Rightarrow> (Inl e, c')
         | (Inr vs, c') \<Rightarrow>
             (case embed_batches svc (drop 50 texts) max_retries c' of
                (Inl e, c'') \<Rightarrow> (Inl e, c'')
              | (Inr ws, c'') \<Rightarrow> (Inr (vs @ ws), c''))))"
  by pat_completeness auto

termination
  by (relation "measure (\<lambda>(svc, texts, max_retries, c). length texts)") auto

declare embed_batches.simps [simp del]

definition embed_texts :: "service \<Rightarrow> string list \<Rightarrow> nat \<Rightarrow> nat \<Rightarrow> (error + vec list) \<times> nat" where
  "embed_texts svc texts max_retries c =
     (if length texts = 1 then
        (case embed_single svc (hd texts) max_retries c of
           (Some r, c') \<Rightarrow> (r, c')
         | (None, c') \<Rightarrow> embed_batches svc texts max_retries c')
      else embed_batches svc texts max_retries c)"

section \<open>The incremental index builder (src/incremental\_indexer.py)\<close>

text \<open>
  A document is a dictionary: each key may be absent. The key \<^verbatim>\<open>id\<close> is given as
  the string \<^verbatim>\<open>str(doc['id'])\<close>; the keys of \<^verbatim>\<open>doc['metadata']\<close> are given directly.
\<close>

record document =
  doc_id :: "string option"
  doc_text :: "string option"
  doc_url :: "string option"
  doc_title :: "string option"
  doc_created_at :: "string option"

definition get_or :: "'a option \<Rightarrow> 'a \<Rightarrow> 'a" where
  "get_or v dflt = (case v of None \<Rightarrow> dflt | Some x \<Rightarrow> x)"

text \<open>
  What a builder works with from outside: the tokenizer, the MD5 digest (as a
  function from the text to its hexadecimal digest) and the embedding service.
\<close>

record env =
  env_encoder :: encoder
  env_md5 :: "string \<Rightarrow> string"
  env_service :: service

record builder =
  batch_size :: int
  chunk_size :: int
  chunk_overlap :: int
  processed_ids :: "string set"
  total_chunks :: nat

text \<open>
  What one run changes: the builder, the indexer it is given, the files, and the
  number of calls made to the embedding service. The trace records, in order, each
  id added to \<open>processed_ids\<close>, each call of \<^verbatim>\<open>_process_batch\<close> with the metadata it is
  given, its outcome, and each checkpoint written.
\<close>

datatype event =
    Marked string
  | BatchStart "metadata list"
  | BatchIndexed nat
  | BatchError
  | CheckpointSaved "string set"

record world =
  bld :: builder
  ixr :: faiss_indexer
  dsk :: disk
  calls :: nat
  trace :: "event list"

definition load_processed_ids :: "disk \<Rightarrow> string set" where
  "load_processed_ids dk = (case ids_file dk of Some ids \<Rightarrow> ids | None \<Rightarrow> {})"

definition IncrementalIndexBuilder :: "int \<Rightarrow> int \<Rightarrow> int \<Rightarrow> disk \<Rightarrow> builder" where
  "IncrementalIndexBuilder bs cs co dk =
     \<lparr>batch_size = bs, chunk_size = cs, chunk_overlap = co,
      processed_ids = load_processed_ids dk, total_chunks = 0\<rparr>"

definition get_doc_id :: "env \<Rightarrow> document \<Rightarrow> string" where
  "get_doc_id ev doc =
     (case doc_id doc of
        Some i \<Rightarrow> i
      | None \<Rightarrow> env_md5 ev (get_or (doc_text doc) [] @ get_or (doc_url doc) []))"

definition emit :: "event \<Rightarrow> world \<Rightarrow> world" where
  "emit e w = w\<lparr>trace := trace w @ [e]\<rparr>"

definition process_batch :: "env \<Rightarrow> world \<Rightarrow> string list \<Rightarrow> metadata list \<Rightarrow> error option \<times> world" where
  "process_batch ev w texts metas =
     (let w1 = emit (BatchStart metas) w
      in case embed_texts (env_service ev) texts 3 (calls w1) of
           (Inl e, c') \<Rightarrow> (Some e, emit BatchError (w1\<lparr>calls := c'\<rparr>))
         | (Inr vectors, c') \<Rightarrow>
             (case add (ixr w1) vectors metas of
                Inl e \<Rightarrow> (Some e, emit BatchError (w1\<lparr>calls := c'\<rparr>))
              | Inr ix' \<Rightarrow>
                  (None,
                   emit (BatchIndexed (total_chunks (bld w1) + length texts))
                     (w1\<lparr>calls := c', ixr := ix',
                         bld := (bld w1)\<lparr>total_chunks := total_chunks (bld w1) + length texts\<rparr>\<rparr>))))"

definition save_checkpoint :: "world \<Rightarrow> nat \<Rightarrow> world" where
  "save_checkpoint w dp =
     emit (CheckpointSaved (processed_ids (bld w)))
       (w\<lparr>dsk := (dsk w)\<lparr>ids_file := Some (processed_ids (bld w)),
                          info_file := Some \<lparr>ci_docs_processed = dp,
                                              ci_total_chunks = total_chunks (bld w),
                                              ci_processed_ids_count = card (processed_ids (bld w))\<rparr>\<rparr>\<rparr>)"

text \<open>The local variables of \<^verbatim>\<open>process_documents\<close>.\<close>

record locals =
  batch_texts :: "string list"
  batch_metadatas :: "metadata list"
  docs_processed :: nat
  docs_skipped :: nat

definition chunk_metadata :: "document \<Rightarrow> string \<Rightarrow> chunk \<Rightarrow> metadata" where
  "chunk_metadata doc did c =
     \<lparr>md_doc_id = did, md_chunk_id = id_chunk c, md_text = text_chunk c,
      md_source = get_or (doc_url doc) ''unknown'',
      md_title = get_or (doc_title doc) [],
      md_created_at = get_or (doc_created_at doc) []\<rparr>"

text \<open>
  The body of the \<^verbatim>\<open>for doc in documents\<close> loop. The outer \<open>None\<close> is a chunker that
  never returns; an exception leaves the loop with the state reached so far.
\<close>

definition process_doc ::
  "env \<Rightarrow> world \<Rightarrow> locals \<Rightarrow> document \<Rightarrow> (error option \<times> world \<times> locals) option"
where
  "process_doc ev w ls doc =
     (let did = get_doc_id ev doc
      in if did \<in> processed_ids (bld w) then
           Some (None, w, ls\<lparr>docs_skipped := docs_skipped ls + 1\<rparr>)
         else
           (let text = get_or (doc_text doc) []
            in if blank text then Some (None, w, ls)
               else
                 (case chunk_text (env_encoder ev) text (chunk_size (bld w)) (chunk_overlap (bld w)) of
                    None \<Rightarrow> None
                  | Some chunks \<Rightarrow>
                      (let ls1 = ls\<lparr>batch_texts := batch_texts ls @ map text_chunk chunks,
                                    batch_metadatas :=
                                      batch_metadatas ls @ map (chunk_metadata doc did) chunks,
                                    docs_processed := docs_processed ls + 1\<rparr>;
                           w1 = emit (Marked did)
                                  (w\<lparr>bld := (bld w)\<lparr>processed_ids :=
                                                        insert did (processed_ids (bld w))\<rparr>\<rparr>)
                       in if int (length (batch_texts ls1)) \<ge> batch_size (bld w1) then
                            (case process_batch ev w1 (batch_texts ls1) (batch_metadatas ls1) of
                               (Some e, w2) \<Rightarrow> Some (Some e, w2, ls1)
                             | (None, w2) \<Rightarrow>
                                 (let ls2 = ls1\<lparr>batch_texts := [], batch_metadatas := []\<rparr>
                                  in if batch_size (bld w2) * 10 = 0 then
                                       Some (Some ZeroDivisionError, w2, ls2)
                                     else if int (docs_processed ls2) mod (batch_size (bld w2) * 10) = 0
                                     then Some (None, save_checkpoint w2 (docs_processed ls2), ls2)
                                     else Some (None, w2, ls2)))
                          else Some (None, w1, ls1)))))"

fun doc_loop ::
  "env \<Rightarrow> world \<Rightarrow> locals \<Rightarrow> document list \<Rightarrow> (error option \<times> world \<times> locals) option"
where
  "doc_loop ev w ls [] = Some (None, w, ls)"
| "doc_loop ev w ls (doc # docs) =
     (case process_doc ev w ls doc of
        None \<Rightarrow> None
      | Some (Some e, w', ls') \<Rightarrow> Some (Some e, w', ls')
      | Some (None, w', ls') \<Rightarrow> doc_loop ev w' ls' docs)"

definition process_documents ::
  "env \<Rightarrow> world \<Rightarrow> document list \<Rightarrow> (error option \<times> world \<times> locals) option"
where
  "process_documents ev w documents =
     (case doc_loop ev w
             \<lparr>batch_texts = [], batch_metadatas = [], docs_processed = 0, docs_skipped = 0\<rparr>
             documents of
        None \<Rightarrow> None
      | Some (Some e, w', ls) \<Rightarrow> Some (Some e, w', ls)
      | Some (None, w', ls) \<Rightarrow>
          (case (if batch_texts ls \<noteq> []
                 then process_batch ev w' (batch_texts ls) (batch_metadatas ls)
                 else (None, w')) of
             (Some e, w'') \<Rightarrow> Some (Some e, w'', ls)
           | (None, w'') \<Rightarrow> Some (None, save_checkpoint w'' (docs_processed ls), ls)))"

section \<open>Auxiliary definitions\<close>

text \<open>
  The windows the loop of \<^const>\<open>chunk_loop\<close> visits in at most \<open>n\<close> rounds from the offset
  \<open>s\<close>, for \<open>L\<close> tokens, and the chunks made of them when every window decodes.
\<close>

fun spans :: "nat \<Rightarrow> int \<Rightarrow> int \<Rightarrow> int \<Rightarrow> int \<Rightarrow> (int \<times> int) list" where
  "spans 0 L m ov s = []"
| "spans (Suc n) L m ov s =
     (if s < L then (s, min (s + m) L) # spans n L m ov (min (s + m) L - ov) else [])"

definition mk_chunk :: "encoder \<Rightarrow> nat list \<Rightarrow> nat \<Rightarrow> int \<times> int \<Rightarrow> chunk" where
  "mk_chunk enc tokens i sp =
     \<lparr>id_chunk = ''chunk_'' @ str_nat i,
      text_chunk = the (decode enc (py_slice tokens (fst sp) (snd sp))),
      start_token = fst sp, end_token = snd sp\<rparr>"

fun mk_chunks :: "encoder \<Rightarrow> nat list \<Rightarrow> nat \<Rightarrow> (int \<times> int) list \<Rightarrow> chunk list" where
  "mk_chunks enc tokens i [] = []"
| "mk_chunks enc tokens i (sp # sps) =
     mk_chunk enc tokens i sp # mk_chunks enc tokens (Suc i) sps"

subsection \<open>Concrete inputs\<close>

text \<open>A tokenizer with one token for each character, which never fails.\<close>

definition char_encoder :: encoder where
  "char_encoder =
     \<lparr>encode = (\<lambda>s. Some (map of_char s)), decode = (\<lambda>ts. Some (map char_of ts))\<rparr>"

text \<open>
  A tokenizer with a vocabulary of 256 ids, one for each character, whose \<open>decode\<close>
  rejects every id outside the vocabulary, as the decoder of tiktoken does.
\<close>

definition vocab_encoder :: encoder where
  "vocab_encoder =
     \<lparr>encode = (\<lambda>s. Some (map of_char s)),
      decode = (\<lambda>ts. if list_all (\<lambda>t. t < 256) ts then Some (map char_of ts) else None)\<rparr>"

text \<open>A sequence of \<^const>\<open>add\<close> calls on one indexer; the first call that raises ends it.\<close>

fun add_all :: "faiss_indexer \<Rightarrow> (vec list \<times> metadata list) list \<Rightarrow> error + faiss_indexer" where
  "add_all ix [] = Inr ix"
| "add_all ix (b # bs) =
     (case add ix (fst b) (snd b) of Inl e \<Rightarrow> Inl e | Inr ix' \<Rightarrow> add_all ix' bs)"

definition meta_of :: "string \<Rightarrow> metadata" where
  "meta_of i =
     \<lparr>md_doc_id = i, md_chunk_id = ''chunk_0'', md_text = ''t'', md_source = ''unknown'',
      md_title = [], md_created_at = []\<rparr>"

text \<open>
  An index of dimension 2 holding one record, one holding the same vector twice, and
  one holding three vectors at different angles to the first axis.
\<close>

definition one_index :: faiss_indexer where
  "one_index = projr (add (FaissIndexer 2) [[1, 0]] [meta_of ''a''])"



definition disk0 :: disk where
  "disk0 = \<lparr>index_file = None, meta_file = None, ids_file = None, info_file = None\<rparr>"

subsection \<open>Names for the steps of the builder\<close>

text \<open>
  The three updates in the body of the loop of \<^const>\<open>process_doc\<close>: the chunks of a document
  join the batch and the document is counted; its id is added to \<open>processed_ids\<close>; the
  batch is emptied after a flush.
\<close>

definition enqueue :: "locals \<Rightarrow> document \<Rightarrow> string \<Rightarrow> chunk list \<Rightarrow> locals" where
  "enqueue ls doc did chunks =
     ls\<lparr>batch_texts := batch_texts ls @ map text_chunk chunks,
        batch_metadatas := batch_metadatas ls @ map (chunk_metadata doc did) chunks,
        docs_processed := docs_processed ls + 1\<rparr>"

definition mark :: "world \<Rightarrow> string \<Rightarrow> world" where
  "mark w did =
     emit (Marked did) (w\<lparr>bld := (bld w)\<lparr>processed_ids := insert did (processed_ids (bld w))\<rparr>\<rparr>)"

definition cleared :: "locals \<Rightarrow> locals" where
  "cleared ls = ls\<lparr>batch_texts := [], batch_metadatas := []\<rparr>"

definition locals0 :: locals where
  "locals0 = \<lparr>batch_texts = [], batch_metadatas = [], docs_processed = 0, docs_skipped = 0\<rparr>"


text \<open>
  The start of the next run on the persisted artifacts, as the entry points
  \<^verbatim>\<open>build_index_from_jsonl\<close> and \<^verbatim>\<open>build_index_from_api\<close> do it: the indexer of the run
  before has been saved; a fresh indexer loads the saved index, and a fresh builder
  loads the checkpoint.
\<close>

definition restart :: "int \<Rightarrow> int \<Rightarrow> int \<Rightarrow> nat \<Rightarrow> world \<Rightarrow> world" where
  "restart bs cs co dm w =
     (let dk = save (ixr w) (dsk w)
      in \<lparr>bld = IncrementalIndexBuilder bs cs co dk,
          ixr = snd (load (FaissIndexer dm) dk),
          dsk = dk, calls = calls w, trace = []\<rparr>)"

text \<open>
  The counts along a run: the state \<open>w1\<close> is in step with the state \<open>w\<close> the run began
  in when the records added since are as many as \<open>total_chunks\<close> has grown by.
\<close>

definition in_step :: "world \<Rightarrow> world \<Rightarrow> bool" where
  "in_step w w1 \<longleftrightarrow>
     length (metadatas (ixr w1)) = length (ip_xb (index (ixr w1))) \<and>
     total_chunks (bld w1) + length (metadatas (ixr w)) =
       total_chunks (bld w) + length (metadatas (ixr w1)) \<and>
     (\<exists>new. metadatas (ixr w1) = metadatas (ixr w) @ new)"

subsection \<open>A concrete run\<close>

text \<open>
  An embedding service that answers every call with the same vector of dimension 2,
  and one that fails on every call. The digest is not used by documents that carry an
  id.
\<close>

definition unit_service :: service where
  "unit_service = (\<lambda>c task t. Some [1, 0])"

definition down_service :: service where
  "down_service = (\<lambda>c task t. None)"

definition env0 :: env where
  "env0 = \<lparr>env_encoder = char_encoder, env_md5 = (\<lambda>s. s), env_service = unit_service\<rparr>"

definition env_down :: env where
  "env_down = \<lparr>env_encoder = char_encoder, env_md5 = (\<lambda>s. s), env_service = down_service\<rparr>"

text \<open>
  A builder with batches of 2 chunks, chunks of 4 tokens and no overlap, on an empty
  directory, with an empty indexer of dimension 2.
\<close>

definition world0 :: world where
  "world0 =
     \<lparr>bld = IncrementalIndexBuilder 2 4 0 disk0, ixr = FaissIndexer 2, dsk = disk0,
      calls = 0, trace = []\<rparr>"

definition doc_a :: document where
  "doc_a = \<lparr>doc_id = Some ''a'', doc_text = Some ''abcdef'', doc_url = None,
            doc_title = None, doc_created_at = None\<rparr>"

definition doc_blank :: document where
  "doc_blank = \<lparr>doc_id = Some ''b'', doc_text = Some '' '', doc_url = None,
                doc_title = None, doc_created_at = None\<rparr>"

subsection \<open>Properties of a trace\<close>



text \<open>
  A tokenizer that rejects one text, as the tiktoken encoder rejects a text that
  contains a special token, and a document with that text.
\<close>

definition picky_encoder :: encoder where
  "picky_encoder =
     \<lparr>encode = (\<lambda>s. if s = ''<|endoftext|>'' then None else Some (map of_char s)),
      decode = (\<lambda>ts. Some (map char_of ts))\<rparr>"

definition env_picky :: env where
  "env_picky = \<lparr>env_encoder = picky_encoder, env_md5 = (\<lambda>s. s), env_service = unit_service\<rparr>"

definition doc_special :: document where
  "doc_special = \<lparr>doc_id = Some ''s'', doc_text = Some ''<|endoftext|>'', doc_url = None,
                  doc_title = None, doc_created_at = None\<rparr>"

text \<open>The state after a first run over the one blank document.\<close>

definition after_blank_run :: world where
  "after_blank_run = fst (snd (the (process_documents env0 world0 [doc_blank])))"

section \<open>Properties of the chunker\<close>

lemma length_mk_chunks: "length (mk_chunks enc tokens i sps) = length sps"
  by (induction sps arbitrary: i) auto

lemma start_mk_chunks: "map start_token (mk_chunks enc tokens i sps) = map fst sps"
  by (induction sps arbitrary: i) (auto simp: mk_chunk_def)

lemma end_mk_chunks: "map end_token (mk_chunks enc tokens i sps) = map snd sps"
  by (induction sps arbitrary: i) (auto simp: mk_chunk_def)

lemma start_mk_chunks_nth:
  "i < length sps \<Longrightarrow> start_token (mk_chunks enc tokens j sps ! i) = fst (sps ! i)"
  using start_mk_chunks [of enc tokens j sps] length_mk_chunks [of enc tokens j sps]
  by (metis nth_map)

lemma end_mk_chunks_nth:
  "i < length sps \<Longrightarrow> end_token (mk_chunks enc tokens j sps ! i) = snd (sps ! i)"
  using end_mk_chunks [of enc tokens j sps] length_mk_chunks [of enc tokens j sps]
  by (metis nth_map)

text \<open>
  When every slice of the token list decodes, the loop ends and returns the chunks of
  its windows.
\<close>

lemma chunk_loop_spans:
  assumes dec: "\<And>a b. decode enc (py_slice tokens a b) \<noteq> None"
  shows "n = max_chunks - idx \<Longrightarrow>
         chunk_loop enc tokens m ov s idx acc =
         Some (acc @ mk_chunks enc tokens idx (spans n (int (length tokens)) m ov s))"
proof (induction n arbitrary: s idx acc)
  case 0
  then have "\<not> idx < max_chunks" by simp
  then show ?case by (subst chunk_loop.simps) simp
next
  case (Suc n)
  then have lt: "idx < max_chunks" and n: "n = max_chunks - Suc idx" by simp_all
  show ?case
  proof (cases "s < int (length tokens)")
    case False
    then show ?thesis by (subst chunk_loop.simps) simp
  next
    case True
    let ?e = "min (s + m) (int (length tokens))"
    obtain t where t: "decode enc (py_slice tokens s ?e) = Some t"
      using dec [of s ?e] by blast
    show ?thesis
      apply (subst chunk_loop.simps)
      using True lt t Suc.IH [OF n, of "?e - ov"]
      by (simp add: Let_def mk_chunk_def)
  qed
qed

lemma chunk_text_spans:
  assumes "\<And>a b. decode enc (py_slice tokens a b) \<noteq> None"
    and "\<not> blank text" and "encode enc text = Some tokens" and "tokens \<noteq> []"
  shows "chunk_text enc text m ov =
         Some (mk_chunks enc tokens 0 (spans max_chunks (int (length tokens)) m ov 0))"
  using assms(2-4) chunk_loop_spans [OF assms(1), of max_chunks 0 m ov 0 "[]"]
  by (simp add: chunk_text_def)

lemma length_spans_le: "length (spans n L m ov s) \<le> n"
  by (induction n arbitrary: s) auto

lemma spans_stuck: "m \<le> ov \<Longrightarrow> s < L \<Longrightarrow> length (spans n L m ov s) = n"
  by (induction n arbitrary: s) auto

lemma spans_overlap_full: "0 < ov \<Longrightarrow> s < L \<Longrightarrow> length (spans n L m ov s) = n"
  by (induction n arbitrary: s) auto

lemma spans_shape: "(a, b) \<in> set (spans n L m ov s) \<Longrightarrow> a < L \<and> b = min (a + m) L"
  by (induction n arbitrary: s) (auto split: if_splits)

lemma spans_next:
  "Suc i < length (spans n L m ov s) \<Longrightarrow>
   fst (spans n L m ov s ! Suc i) = snd (spans n L m ov s ! i) - ov"
proof (induction n arbitrary: s i)
  case 0
  then show ?case by simp
next
  case (Suc n)
  show ?case
  proof (cases i)
    case 0
    with Suc.prems show ?thesis by (cases n) (auto split: if_splits)
  next
    case (Suc j)
    with Suc.prems Suc.IH [of j] show ?thesis by (auto split: if_splits)
  qed
qed

lemma spans_hd:
  "0 < n \<Longrightarrow> s < L \<Longrightarrow> spans n L m ov s \<noteq> [] \<and> fst (hd (spans n L m ov s)) = s"
  by (cases n) auto

lemma spans_last:
  "0 \<le> ov \<Longrightarrow> ov < m \<Longrightarrow> s < L \<Longrightarrow> L \<le> s + int n * (m - ov) + m \<Longrightarrow>
   snd (last (spans (Suc n) L m ov s)) = L"
proof (induction n arbitrary: s)
  case 0
  then show ?case by simp
next
  case (Suc n)
  let ?s' = "min (s + m) L - ov"
  show ?case
  proof (cases "?s' < L")
    case False
    with Suc.prems show ?thesis by (auto simp: min_def split: if_splits)
  next
    case True
    have pos: "0 \<le> int n * (m - ov)" using Suc.prems by simp
    have "L \<le> ?s' + int n * (m - ov) + m"
      using Suc.prems pos by (auto simp: min_def algebra_simps)
    from Suc.IH [OF Suc.prems(1,2) True this] Suc.prems(3) True
    show ?thesis by simp
  qed
qed

lemma take_spans: "take k (spans n L m ov s) = spans (min k n) L m ov s"
proof (induction n arbitrary: s k)
  case 0
  then show ?case by simp
next
  case (Suc n)
  then show ?case by (cases k) auto
qed

lemma take_mk_chunks: "take k (mk_chunks enc tokens i sps) = mk_chunks enc tokens i (take k sps)"
proof (induction sps arbitrary: i k)
  case Nil
  then show ?case by simp
next
  case (Cons sp sps)
  then show ?case by (cases k) auto
qed

lemma char_encoder_total: "decode char_encoder ts \<noteq> None"
  by (simp add: char_encoder_def)

text \<open>
  The decoder of \<^const>\<open>vocab_encoder\<close> is partial, and it accepts every slice of the tokens
  of a text.
\<close>

lemma set_py_slice: "set (py_slice xs a b) \<subseteq> set xs"
proof -
  have "set (take i (drop j xs)) \<subseteq> set xs" for i j
    using set_take_subset [of i "drop j xs"] set_drop_subset [of j xs] by blast
  then show ?thesis by (simp add: py_slice_def Let_def)
qed

lemma vocab_encoder_rejects: "decode vocab_encoder [300] = None"
  by (simp add: vocab_encoder_def)

lemma vocab_encoder_slices:
  assumes "encode vocab_encoder text = Some tokens"
  shows "decode vocab_encoder (py_slice tokens a b) \<noteq> None"
proof -
  from assms have "tokens = map of_char text" by (auto simp: vocab_encoder_def)
  then have "\<forall>t \<in> set tokens. t < 256" by auto
  with set_py_slice [of tokens a b] have "list_all (\<lambda>t. t < 256) (py_slice tokens a b)"
    by (auto simp: list_all_iff)
  then show ?thesis by (simp add: vocab_encoder_def)
qed

lemma not_blank_letters: "\<not> blank ''abcdefgh''" "\<not> blank ''a''"
  by (simp_all add: blank_def py_isspace_def)


text \<open>
  C2, as the code has it. The source has no check of its parameters and no
  \<^verbatim>\<open>InvalidChunkParameters\<close>: with \<open>max_tokens \<le> overlap\<close> the window never moves
  forward, and the loop is ended by the cap of 1000 chunks alone. When the slices of
  the token list of the text decode, \<^const>\<open>chunk_text\<close> returns: no chunk for a text that
  is blank, that the tokenizer rejects or that has no token, and exactly 1000 chunks
  for any other text. Nothing is asked of \<open>decode\<close> on other token lists.
\<close>

theorem chunk_text_invalid_parameters_capped:
  assumes "\<And>tokens a b. encode enc text = Some tokens \<Longrightarrow>
             decode enc (py_slice tokens a b) \<noteq> None"
    and "max_tokens \<le> overlap"
  shows "\<exists>chunks. chunk_text enc text max_tokens overlap = Some chunks \<and>
           length chunks =
             (if blank text \<or> encode enc text = None \<or> encode enc text = Some [] then 0
              else max_chunks)"
proof (cases "blank text \<or> encode enc text = None \<or> encode enc text = Some []")
  case True
  then show ?thesis by (auto simp: chunk_text_def)
next
  case False
  then obtain tokens where tk: "encode enc text = Some tokens" "tokens \<noteq> []" "\<not> blank text"
    by auto
  have "length (spans max_chunks (int (length tokens)) max_tokens overlap 0) = max_chunks"
    using tk(2) assms(2) by (intro spans_stuck) simp_all
  with tk show ?thesis
    using chunk_text_spans [OF assms(1) [OF tk(1)] tk(3) tk(1) tk(2), of max_tokens overlap]
    by (simp add: length_mk_chunks)
qed

theorem chunk_text_invalid_parameters_capped_witness:
  "(1::int) \<le> 1 \<and> \<not> blank ''a'' \<and> encode vocab_encoder ''a'' = Some [97] \<and>
   (\<forall>a b. decode vocab_encoder (py_slice [97] a b) \<noteq> None) \<and>
   decode vocab_encoder [300] = None \<and>
   (\<exists>chunks. chunk_text vocab_encoder ''a'' 1 1 = Some chunks \<and> length chunks = 1000)"
proof -
  have e: "encode vocab_encoder ''a'' = Some [97]"
    by (simp add: vocab_encoder_def)
  have "\<exists>chunks. chunk_text vocab_encoder ''a'' 1 1 = Some chunks \<and>
          length chunks =
            (if blank ''a'' \<or> encode vocab_encoder ''a'' = None \<or>
                encode vocab_encoder ''a'' = Some [] then 0 else max_chunks)"
    by (rule chunk_text_invalid_parameters_capped) (simp_all add: vocab_encoder_slices)
  then have "\<exists>chunks. chunk_text vocab_encoder ''a'' 1 1 = Some chunks \<and> length chunks = 1000"
    by (simp add: e not_blank_letters max_chunks_def)
  moreover have "\<forall>a b. decode vocab_encoder (py_slice [97] a b) \<noteq> None"
    using vocab_encoder_slices [OF e] by blast
  ultimately show ?thesis
    using e by (simp add: not_blank_letters vocab_encoder_rejects)
qed

text \<open>
  C2 as stated fails: with \<open>max_tokens = overlap = 1\<close> the one-token text \<open>''a''\<close> is
  chunked without any error, into 1000 chunks.
\<close>

theorem chunk_text_invalid_parameters_counterexample:
  "map_option length (chunk_text char_encoder ''a'' 1 1) = Some 1000"
proof -
  have "encode char_encoder ''a'' = Some [97]"
    by (simp add: char_encoder_def)
  then have "chunk_text char_encoder ''a'' 1 1 =
      Some (mk_chunks char_encoder [97] 0 (spans max_chunks (int (length [97::nat])) 1 1 0))"
    by (intro chunk_text_spans) (simp_all add: char_encoder_total not_blank_letters)
  moreover have "length (spans max_chunks (int (length [97::nat])) 1 1 0) = max_chunks"
    by (intro spans_stuck) simp_all
  ultimately show ?thesis
    by (simp add: length_mk_chunks max_chunks_def)
qed

text \<open>
  C3, as the code has it. For a text that is not blank, has \<open>L > 0\<close> tokens and is
  such that the slices of its token list decode, and for \<open>0 \<le> overlap < max_tokens\<close>,
  \<^const>\<open>chunk_text\<close> returns between 1 and 1000 chunks. The first starts at 0; each chunk is
  not empty, ends at \<open>L\<close> at the latest and has at most \<open>max_tokens\<close> tokens; each chunk
  starts \<open>overlap\<close> tokens before the end of the one before it, so there is no gap;
  and as long as a chunk has not reached \<open>L\<close>, the next one starts
  \<open>max_tokens - overlap\<close> after it. When 1000 windows are enough to reach \<open>L\<close>, the
  last chunk ends at \<open>L\<close>. What follows a chunk that has reached \<open>L\<close> is not stated.
  Nothing is asked of \<open>decode\<close> on other token lists.
\<close>

theorem chunk_text_windows:
  assumes "\<And>a b. decode enc (py_slice tokens a b) \<noteq> None"
    and "\<not> blank text" and "encode enc text = Some tokens" and "tokens \<noteq> []"
    and "0 \<le> overlap" and "overlap < max_tokens"
  shows "\<exists>chunks. chunk_text enc text max_tokens overlap = Some chunks \<and>
           chunks \<noteq> [] \<and> length chunks \<le> max_chunks \<and>
           start_token (hd chunks) = 0 \<and>
           (\<forall>c \<in> set chunks.
              start_token c < end_token c \<and> end_token c \<le> int (length tokens) \<and>
              end_token c - start_token c \<le> max_tokens) \<and>
           (\<forall>i. Suc i < length chunks \<longrightarrow>
              start_token (chunks ! Suc i) = end_token (chunks ! i) - overlap) \<and>
           (\<forall>i. Suc i < length chunks \<and> end_token (chunks ! i) < int (length tokens) \<longrightarrow>
              start_token (chunks ! Suc i) = start_token (chunks ! i) + (max_tokens - overlap)) \<and>
           (int (length tokens) \<le> 999 * (max_tokens - overlap) + max_tokens \<longrightarrow>
              end_token (last chunks) = int (length tokens))"
proof -
  let ?L = "int (length tokens)"
  let ?sp = "spans max_chunks ?L max_tokens overlap 0"
  let ?cs = "mk_chunks enc tokens 0 ?sp"
  have L: "0 < ?L" using assms(4) by simp
  have res: "chunk_text enc text max_tokens overlap = Some ?cs"
    by (rule chunk_text_spans [OF assms(1-4)])
  have len: "length ?cs = length ?sp" by (rule length_mk_chunks)
  have ne: "?sp \<noteq> []" and hd0: "fst (hd ?sp) = 0"
    using spans_hd [of max_chunks 0 ?L max_tokens overlap] L by (simp_all add: max_chunks_def)
  have st: "start_token (?cs ! i) = fst (?sp ! i)" and en: "end_token (?cs ! i) = snd (?sp ! i)"
    if "i < length ?sp" for i
    using that by (simp_all add: start_mk_chunks_nth end_mk_chunks_nth)
  have shape: "fst (?sp ! i) < ?L \<and> snd (?sp ! i) = min (fst (?sp ! i) + max_tokens) ?L"
    if "i < length ?sp" for i
    using spans_shape [of "fst (?sp ! i)" "snd (?sp ! i)" max_chunks ?L max_tokens overlap 0] that
    by simp
  have c1: "?cs \<noteq> []" using ne len by auto
  have c2: "length ?cs \<le> max_chunks" using len length_spans_le [of max_chunks] by simp
  have c3: "start_token (hd ?cs) = 0"
    using st [of 0] ne hd0 c1 by (simp add: hd_conv_nth)
  have c4: "start_token c < end_token c \<and> end_token c \<le> ?L \<and>
            end_token c - start_token c \<le> max_tokens" if "c \<in> set ?cs" for c
  proof -
    from that obtain i where i: "i < length ?cs" "c = ?cs ! i"
      by (auto simp: in_set_conv_nth)
    then have "i < length ?sp" using len by simp
    from st [OF this] en [OF this] shape [OF this] i(2) assms(5,6) show ?thesis
      by (auto simp: min_def)
  qed
  have c5: "start_token (?cs ! Suc i) = end_token (?cs ! i) - overlap"
    if "Suc i < length ?cs" for i
  proof -
    from that have a: "Suc i < length ?sp" and b: "i < length ?sp" using len by simp_all
    from spans_next [OF a] st [OF a] en [OF b] show ?thesis by simp
  qed
  have c6: "start_token (?cs ! Suc i) = start_token (?cs ! i) + (max_tokens - overlap)"
    if "Suc i < length ?cs" "end_token (?cs ! i) < ?L" for i
  proof -
    from that have b: "i < length ?sp" using len by simp
    from c5 [OF that(1)] that(2) st [OF b] en [OF b] shape [OF b] show ?thesis
      by (auto simp: min_def split: if_splits)
  qed
  have c7: "end_token (last ?cs) = ?L" if "?L \<le> 999 * (max_tokens - overlap) + max_tokens"
  proof -
    have "snd (last (spans (Suc 999) ?L max_tokens overlap 0)) = ?L"
      using that L assms(5,6) by (intro spans_last) simp_all
    then have "snd (last ?sp) = ?L" by (simp add: max_chunks_def)
    moreover have "end_token (last ?cs) = snd (last ?sp)"
      using en [of "length ?sp - 1"] ne c1 len by (simp add: last_conv_nth)
    ultimately show ?thesis by simp
  qed
  from res c1 c2 c3 c4 c5 c6 c7 show ?thesis by blast
qed

theorem chunk_text_windows_witness:
  "\<not> blank ''abcdefgh'' \<and>
   encode vocab_encoder ''abcdefgh'' = Some [97, 98, 99, 100, 101, 102, 103, 104] \<and>
   (\<forall>a b. decode vocab_encoder (py_slice [97, 98, 99, 100, 101, 102, 103, 104] a b) \<noteq> None) \<and>
   decode vocab_encoder [300] = None \<and>
   (0::int) \<le> 1 \<and> (1::int) < 4 \<and>
   (\<exists>chunks. chunk_text vocab_encoder ''abcdefgh'' 4 1 = Some chunks \<and>
      chunks \<noteq> [] \<and> length chunks \<le> 1000 \<and>
      start_token (hd chunks) = 0 \<and> end_token (last chunks) = 8 \<and>
      (\<forall>c \<in> set chunks.
         start_token c < end_token c \<and> end_token c \<le> 8 \<and> end_token c - start_token c \<le> 4) \<and>
      (\<forall>i. Suc i < length chunks \<longrightarrow>
         start_token (chunks ! Suc i) = end_token (chunks ! i) - 1) \<and>
      (\<forall>i. Suc i < length chunks \<and> end_token (chunks ! i) < 8 \<longrightarrow>
         start_token (chunks ! Suc i) = start_token (chunks ! i) + 3))"
proof -
  let ?tokens = "[97, 98, 99, 100, 101, 102, 103, 104 :: nat]"
  have e: "encode vocab_encoder ''abcdefgh'' = Some ?tokens"
    by (simp add: vocab_encoder_def)
  have d: "\<forall>a b. decode vocab_encoder (py_slice ?tokens a b) \<noteq> None"
    using vocab_encoder_slices [OF e] by blast
  have "\<exists>chunks. chunk_text vocab_encoder ''abcdefgh'' 4 1 = Some chunks \<and>
           chunks \<noteq> [] \<and> length chunks \<le> max_chunks \<and>
           start_token (hd chunks) = 0 \<and>
           (\<forall>c \<in> set chunks.
              start_token c < end_token c \<and> end_token c \<le> int (length ?tokens) \<and>
              end_token c - start_token c \<le> 4) \<and>
           (\<forall>i. Suc i < length chunks \<longrightarrow>
              start_token (chunks ! Suc i) = end_token (chunks ! i) - 1) \<and>
           (\<forall>i. Suc i < length chunks \<and> end_token (chunks ! i) < int (length ?tokens) \<longrightarrow>
              start_token (chunks ! Suc i) = start_token (chunks ! i) + (4 - 1)) \<and>
           (int (length ?tokens) \<le> 999 * (4 - 1) + 4 \<longrightarrow>
              end_token (last chunks) = int (length ?tokens))"
    by (rule chunk_text_windows [OF _ _ e]) (simp_all add: vocab_encoder_slices [OF e] not_blank_letters)
  then obtain chunks where c: "chunk_text vocab_encoder ''abcdefgh'' 4 1 = Some chunks"
      "chunks \<noteq> []" "length chunks \<le> 1000" "start_token (hd chunks) = 0"
      "\<forall>c \<in> set chunks.
         start_token c < end_token c \<and> end_token c \<le> 8 \<and> end_token c - start_token c \<le> 4"
      "\<forall>i. Suc i < length chunks \<longrightarrow>
         start_token (chunks ! Suc i) = end_token (chunks ! i) - 1"
      "\<forall>i. Suc i < length chunks \<and> end_token (chunks ! i) < 8 \<longrightarrow>
         start_token (chunks ! Suc i) = start_token (chunks ! i) + 3"
      "end_token (last chunks) = 8"
    by (auto simp: max_chunks_def)
  have "\<exists>chunks. chunk_text vocab_encoder ''abcdefgh'' 4 1 = Some chunks \<and>
      chunks \<noteq> [] \<and> length chunks \<le> 1000 \<and>
      start_token (hd chunks) = 0 \<and> end_token (last chunks) = 8 \<and>
      (\<forall>c \<in> set chunks.
         start_token c < end_token c \<and> end_token c \<le> 8 \<and> end_token c - start_token c \<le> 4) \<and>
      (\<forall>i. Suc i < length chunks \<longrightarrow>
         start_token (chunks ! Suc i) = end_token (chunks ! i) - 1) \<and>
      (\<forall>i. Suc i < length chunks \<and> end_token (chunks ! i) < 8 \<longrightarrow>
         start_token (chunks ! Suc i) = start_token (chunks ! i) + 3)"
    using c by blast
  with e d show ?thesis
    by (simp add: not_blank_letters vocab_encoder_rejects)
qed

lemma spans_plain_length:
  "0 < m \<Longrightarrow> s + int n * m \<le> L \<Longrightarrow> length (spans n L m 0 s) = n"
proof (induction n arbitrary: s)
  case 0
  then show ?case by simp
next
  case (Suc n)
  have "0 < int (Suc n) * m" using Suc.prems(1) by simp
  with Suc.prems(2) have lt: "s < L" by linarith
  have le: "s + m + int n * m \<le> L" using Suc.prems(2) by (simp add: algebra_simps)
  then have "s + m \<le> L" using Suc.prems(1) by (smt (verit) mult_nonneg_nonneg of_nat_0_le_iff)
  with lt Suc.IH [OF Suc.prems(1) le] show ?case by (simp add: min_def)
qed

lemma spans_plain_last:
  "0 < m \<Longrightarrow> s + (int n + 1) * m \<le> L \<Longrightarrow>
   snd (last (spans (Suc n) L m 0 s)) = s + (int n + 1) * m"
proof (induction n arbitrary: s)
  case 0
  then show ?case by (simp add: min_def)
next
  case (Suc n)
  have le: "s + m + (int n + 1) * m \<le> L" using Suc.prems(2) by (simp add: algebra_simps)
  have "0 \<le> (int n + 1) * m" using Suc.prems(1) by simp
  with le have m: "s + m \<le> L" and lt: "s < L" using Suc.prems(1) by linarith+
  have "0 < (int n + 1) * m" using Suc.prems(1) by simp
  with le have lt2: "s + m < L" by linarith
  have "spans (Suc (Suc n)) L m 0 s = (s, s + m) # spans (Suc n) L m 0 (s + m)"
    using lt m by (simp add: min_def)
  moreover have "spans (Suc n) L m 0 (s + m) \<noteq> []" using lt2 by simp
  ultimately have "last (spans (Suc (Suc n)) L m 0 s) = last (spans (Suc n) L m 0 (s + m))"
    by simp
  with Suc.IH [OF Suc.prems(1) le] show ?case by (simp add: algebra_simps)
qed

lemma end_last_mk_chunks:
  "sps \<noteq> [] \<Longrightarrow> end_token (last (mk_chunks enc tokens i sps)) = snd (last sps)"
proof -
  assume ne: "sps \<noteq> []"
  then have "mk_chunks enc tokens i sps \<noteq> []"
    using length_mk_chunks [of enc tokens i sps] by auto
  then have "end_token (last (mk_chunks enc tokens i sps)) =
             last (map end_token (mk_chunks enc tokens i sps))"
    by (simp add: last_map)
  also have "\<dots> = snd (last sps)" using ne by (simp add: end_mk_chunks last_map)
  finally show ?thesis .
qed

text \<open>
  C3 as stated fails, in two ways. A text of 1001 tokens with \<open>max_tokens = 1\<close> and no
  overlap is cut off by the cap: 1000 chunks are returned and the last one ends at
  1000. And for the eight tokens of \<open>''abcdefgh''\<close> with \<open>max_tokens = 4\<close> and
  \<open>overlap = 1\<close> the step is 3, but the chunks start at 0, 3, 6, 7, 7, ...: once a window
  has reached the end, the next one starts \<open>overlap\<close> tokens before the end again, and
  the loop goes on to the cap of 1000 chunks.
\<close>

theorem chunk_text_windows_counterexample:
  "map_option length (encode char_encoder (replicate 1001 CHR ''a'')) = Some 1001 \<and>
   map_option length (chunk_text char_encoder (replicate 1001 CHR ''a'') 1 0) = Some 1000 \<and>
   map_option (end_token \<circ> last) (chunk_text char_encoder (replicate 1001 CHR ''a'') 1 0)
     = Some 1000 \<and>
   map_option (map start_token \<circ> take 5) (chunk_text char_encoder ''abcdefgh'' 4 1)
     = Some [0, 3, 6, 7, 7] \<and>
   map_option length (chunk_text char_encoder ''abcdefgh'' 4 1) = Some 1000"
proof -
  let ?long = "replicate 1001 CHR ''a''" and ?lt = "replicate 1001 (97 :: nat)"
  have el: "encode char_encoder ?long = Some ?lt"
    by (simp add: char_encoder_def)
  have nb: "\<not> blank ?long"
    by (simp add: blank_def py_isspace_def list_all_iff)
  have rl: "chunk_text char_encoder ?long 1 0 =
      Some (mk_chunks char_encoder ?lt 0 (spans max_chunks (int (length ?lt)) 1 0 0))"
    by (rule chunk_text_spans [OF _ nb el]) (simp_all add: char_encoder_total)
  have ll: "length (spans max_chunks (int (length ?lt)) 1 0 0) = 1000"
    using spans_plain_length [of 1 0 max_chunks "int (length ?lt)"] by (simp add: max_chunks_def)
  have "snd (last (spans (Suc 999) (int (length ?lt)) 1 0 0)) = 0 + (int 999 + 1) * 1"
    by (rule spans_plain_last) simp_all
  then have sl: "snd (last (spans max_chunks (int (length ?lt)) 1 0 0)) = 1000"
    by (simp add: max_chunks_def)
  have ne: "spans max_chunks (int (length ?lt)) 1 0 0 \<noteq> []" using ll by auto
  have long: "map_option length (chunk_text char_encoder ?long 1 0) = Some 1000"
    "map_option (end_token \<circ> last) (chunk_text char_encoder ?long 1 0) = Some 1000"
    using ll sl end_last_mk_chunks [OF ne, of char_encoder ?lt 0]
    by (simp_all add: rl length_mk_chunks)
  let ?tokens = "[97, 98, 99, 100, 101, 102, 103, 104 :: nat]"
  have e: "encode char_encoder ''abcdefgh'' = Some ?tokens"
    by (simp add: char_encoder_def)
  have r: "chunk_text char_encoder ''abcdefgh'' 4 1 =
      Some (mk_chunks char_encoder ?tokens 0 (spans max_chunks (int (length ?tokens)) 4 1 0))"
    by (rule chunk_text_spans [OF _ _ e]) (simp_all add: char_encoder_total not_blank_letters)
  have five: "(5::nat) = Suc (Suc (Suc (Suc (Suc 0))))" by simp
  have "take 5 (spans max_chunks (int (length ?tokens)) 4 1 0) =
        [(0, 4), (3, 7), (6, 8), (7, 8), (7, 8)]"
    unfolding take_spans by (simp add: max_chunks_def) (simp add: five)
  then have a: "map start_token (take 5 (mk_chunks char_encoder ?tokens 0
                  (spans max_chunks (int (length ?tokens)) 4 1 0))) = [0, 3, 6, 7, 7]"
    by (simp add: take_mk_chunks mk_chunk_def)
  have b: "length (spans max_chunks (int (length ?tokens)) 4 1 0) = 1000"
    using spans_overlap_full [of 1 0 "int (length ?tokens)" max_chunks 4]
    by (simp add: max_chunks_def)
  from r a b long el show ?thesis
    by (simp add: length_mk_chunks)
qed

section \<open>Properties of the vector index\<close>

lemma add_Inr:
  "add ix vs ms = Inr ix' \<Longrightarrow>
   vs \<noteq> [] \<and> (\<forall>v \<in> set vs. length v = ip_d (index ix)) \<and>
   ip_xb (index ix') = ip_xb (index ix) @ map normalize_L2 vs \<and>
   ip_d (index ix') = ip_d (index ix) \<and> dim ix' = dim ix \<and>
   metadatas ix' = metadatas ix @ ms"
  by (auto simp: add_def split: if_splits)

lemma add_all_Inr:
  "add_all ix bs = Inr ix' \<Longrightarrow>
   ip_xb (index ix') = ip_xb (index ix) @ map normalize_L2 (concat (map fst bs)) \<and>
   ip_d (index ix') = ip_d (index ix) \<and> dim ix' = dim ix \<and>
   metadatas ix' = metadatas ix @ concat (map snd bs) \<and>
   (\<forall>v \<in> set (concat (map fst bs)). length v = ip_d (index ix))"
proof (induction bs arbitrary: ix)
  case Nil
  then show ?case by simp
next
  case (Cons b bs)
  then obtain ix1 where a: "add ix (fst b) (snd b) = Inr ix1" and r: "add_all ix1 bs = Inr ix'"
    by (auto split: sum.splits)
  from add_Inr [OF a] Cons.IH [OF r] show ?case by auto
qed

lemma length_concat_fst_snd:
  "\<forall>b \<in> set bs. length (fst b) = length (snd b) \<Longrightarrow>
   length (concat (map fst bs)) = length (concat (map snd bs))"
  by (induction bs) auto











text \<open>
  C1 on the code. On an empty index the search answers with the label \<open>-1\<close>, which
  passes the test \<^verbatim>\<open>idx < len(self.metadatas)\<close>, and \<^verbatim>\<open>self.metadatas[-1]\<close> raises on
  the empty list. On an index of one record asked for two results, the label \<open>-1\<close>
  reads the last metadata record again: two results are returned.
\<close>

theorem query_beyond_stored_count:
  "query (FaissIndexer 2) [1, 0] 1 = Inl IndexError \<and>
   query one_index [1, 0] 2 =
     Inr [\<lparr>score = 1, metadata = meta_of ''a''\<rparr>,
          \<lparr>score = neutral_score, metadata = meta_of ''a''\<rparr>]"
  by (simp add: one_index_def query_def add_def FaissIndexer_def search_def
      normalize_L2_def inner_product_def py_index_def)

theorem query_beyond_stored_count_witness:
  "length [1, 0 :: real] = ip_d (index (FaissIndexer 2)) \<and> (0::nat) < 1 \<and>
   metadatas (FaissIndexer 2) = [] \<and>
   query (FaissIndexer 2) [1, 0] 1 \<noteq> Inr [] \<and>
   length (projr (query one_index [1, 0] 2)) = 2 \<and> length (metadatas one_index) = 1"
  using query_beyond_stored_count
  by (simp add: FaissIndexer_def one_index_def add_def)

text \<open>
  C6. An index built by any sequence of \<^const>\<open>add\<close> calls is saved and then loaded into
  a fresh indexer. The load succeeds; the loaded index has the metadata of the calls
  in their order and the normalised vectors of the calls in their order, as the index
  saved has them, so that position \<open>i\<close> of the one still goes with position \<open>i\<close> of the
  other (and both lists are equally long when each call gave as many metadata as
  vectors); and every query gives the same answer on both. Files hold the values
  written, so the scores are equal.
\<close>

theorem save_load_roundtrip:
  assumes built: "add_all (FaissIndexer dm) batches = Inr ix"
  shows "fst (load (FaissIndexer dm') (save ix dk)) \<and>
         metadatas (snd (load (FaissIndexer dm') (save ix dk))) = metadatas ix \<and>
         metadatas ix = concat (map snd batches) \<and>
         ip_xb (index (snd (load (FaissIndexer dm') (save ix dk)))) = ip_xb (index ix) \<and>
         ip_xb (index ix) = map normalize_L2 (concat (map fst batches)) \<and>
         ((\<forall>b \<in> set batches. length (fst b) = length (snd b)) \<longrightarrow>
            length (metadatas (snd (load (FaissIndexer dm') (save ix dk)))) =
            length (ip_xb (index (snd (load (FaissIndexer dm') (save ix dk)))))) \<and>
         (\<forall>v k. query (snd (load (FaissIndexer dm') (save ix dk))) v k = query ix v k)"
proof -
  have l: "load (FaissIndexer dm') (save ix dk) =
           (True, (FaissIndexer dm')\<lparr>index := index ix, metadatas := metadatas ix\<rparr>)"
    by (simp add: load_def save_def)
  from add_all_Inr [OF built]
  have xb: "ip_xb (index ix) = map normalize_L2 (concat (map fst batches))"
    and ms: "metadatas ix = concat (map snd batches)"
    by (simp_all add: FaissIndexer_def)
  show ?thesis
    using xb ms length_concat_fst_snd [of batches] by (simp add: l query_def)
qed

theorem save_load_roundtrip_witness:
  "add_all (FaissIndexer 2) [([[1, 0]], [meta_of ''a''])] = Inr one_index \<and>
   length (fst ([[1, 0 :: real]], [meta_of ''a''])) = length (snd ([[1, 0 :: real]], [meta_of ''a''])) \<and>
   fst (load (FaissIndexer 7) (save one_index disk0)) \<and>
   metadatas (snd (load (FaissIndexer 7) (save one_index disk0))) = [meta_of ''a''] \<and>
   length (ip_xb (index (snd (load (FaissIndexer 7) (save one_index disk0))))) = 1 \<and>
   query (snd (load (FaissIndexer 7) (save one_index disk0))) [1, 0] 1 = query one_index [1, 0] 1"
proof -
  have b: "add_all (FaissIndexer 2) [([[1, 0]], [meta_of ''a''])] = Inr one_index"
    by (simp add: one_index_def add_def FaissIndexer_def)
  from save_load_roundtrip [OF b, of 7 disk0] b show ?thesis by simp
qed

section \<open>Properties of the embedding client\<close>

lemma embed_single_Suc:
  "embed_single svc t (Suc k) c = (r, c') \<Longrightarrow>
   r = Some (Inl EmbeddingFailed) \<or> (\<exists>v. r = Some (Inr [v]))"
  by (induction k arbitrary: c) (auto split: option.splits if_splits)

lemma embed_items_length:
  "embed_items svc ts c = (Some vs, c') \<Longrightarrow> length vs = length ts"
  by (induction ts arbitrary: c vs) (auto split: option.splits prod.splits)

lemma embed_batch_length:
  "embed_batch svc batch (Suc k) c = (Inr vs, c') \<Longrightarrow> length vs = length batch"
  by (induction k arbitrary: c)
    (auto split: option.splits prod.splits if_splits dest: embed_items_length)

lemma embed_batches_length:
  "embed_batches svc texts (Suc k) c = (Inr vs, c') \<Longrightarrow> length vs = length texts"
proof (induction svc texts "Suc k" c arbitrary: vs c' rule: embed_batches.induct)
  case (1 svc texts c)
  show ?case
  proof (cases "texts = []")
    case True
    with "1.prems" show ?thesis by (simp add: embed_batches.simps)
  next
    case False
    from "1.prems" False obtain ws c1 us where
      b: "embed_batch svc (take 50 texts) (Suc k) c = (Inr ws, c1)" and
      r: "embed_batches svc (drop 50 texts) (Suc k) c1 = (Inr us, c')" and
      vs: "vs = ws @ us"
      by (subst (asm) embed_batches.simps) (auto split: prod.splits sum.splits)
    have "length us = length (drop 50 texts)"
      using "1.hyps" [OF False _ _ r] b by simp
    moreover have "length ws = length (take 50 texts)"
      by (rule embed_batch_length [OF b])
    ultimately show ?thesis using vs by simp
  qed
qed

text \<open>With at least one attempt allowed, an answer has one vector for each text.\<close>

lemma embed_texts_length:
  "embed_texts svc texts (Suc k) c = (Inr vs, c') \<Longrightarrow> length vs = length texts"
proof -
  assume a: "embed_texts svc texts (Suc k) c = (Inr vs, c')"
  show ?thesis
  proof (cases "length texts = 1")
    case False
    with a show ?thesis by (simp add: embed_texts_def embed_batches_length)
  next
    case True
    obtain r c1 where s: "embed_single svc (hd texts) (Suc k) c = (r, c1)"
      by (cases "embed_single svc (hd texts) (Suc k) c")
    from embed_single_Suc [OF s] a s True show ?thesis
      by (auto simp: embed_texts_def)
  qed
qed

lemma embed_single_numeral:
  "embed_single svc t (numeral n) c =
     (case svc c retrieval_query t of
        Some v \<Rightarrow> (Some (Inr [v]), Suc c)
      | None \<Rightarrow>
          if pred_numeral n = 0 then (Some (Inl EmbeddingFailed), Suc c)
          else embed_single svc t (pred_numeral n) (Suc c))"
  by (simp add: numeral_eq_Suc)

lemma embed_batch_numeral:
  "embed_batch svc batch (numeral n) c =
     (case embed_items svc batch c of
        (Some vs, c') \<Rightarrow> (Inr vs, c')
      | (None, c') \<Rightarrow>
          if pred_numeral n = 0 then (Inl EmbeddingFailed, c')
          else embed_batch svc batch (pred_numeral n) c')"
  by (simp add: numeral_eq_Suc)

section \<open>Properties of the builder\<close>

lemma save_checkpoint_simps [simp]:
  "bld (save_checkpoint w n) = bld w"
  "ixr (save_checkpoint w n) = ixr w"
  "calls (save_checkpoint w n) = calls w"
  "trace (save_checkpoint w n) = trace w @ [CheckpointSaved (processed_ids (bld w))]"
  "ids_file (dsk (save_checkpoint w n)) = Some (processed_ids (bld w))"
  "index_file (dsk (save_checkpoint w n)) = index_file (dsk w)"
  "meta_file (dsk (save_checkpoint w n)) = meta_file (dsk w)"
  by (simp_all add: save_checkpoint_def emit_def)

lemma mark_simps [simp]:
  "processed_ids (bld (mark w i)) = insert i (processed_ids (bld w))"
  "total_chunks (bld (mark w i)) = total_chunks (bld w)"
  "batch_size (bld (mark w i)) = batch_size (bld w)"
  "chunk_size (bld (mark w i)) = chunk_size (bld w)"
  "chunk_overlap (bld (mark w i)) = chunk_overlap (bld w)"
  "ixr (mark w i) = ixr w"
  "dsk (mark w i) = dsk w"
  "calls (mark w i) = calls w"
  "trace (mark w i) = trace w @ [Marked i]"
  by (simp_all add: mark_def emit_def)

lemma enqueue_simps [simp]:
  "batch_texts (enqueue ls doc i cs) = batch_texts ls @ map text_chunk cs"
  "batch_metadatas (enqueue ls doc i cs) = batch_metadatas ls @ map (chunk_metadata doc i) cs"
  "docs_processed (enqueue ls doc i cs) = docs_processed ls + 1"
  "docs_skipped (enqueue ls doc i cs) = docs_skipped ls"
  by (simp_all add: enqueue_def)

lemma cleared_simps [simp]:
  "batch_texts (cleared ls) = []"
  "batch_metadatas (cleared ls) = []"
  "docs_processed (cleared ls) = docs_processed ls"
  "docs_skipped (cleared ls) = docs_skipped ls"
  by (simp_all add: cleared_def)

text \<open>The two outcomes of a flush.\<close>

lemma process_batch_ok:
  assumes "process_batch ev w texts metas = (None, w')"
  shows "\<exists>vs c'. embed_texts (env_service ev) texts 3 (calls w) = (Inr vs, c') \<and>
           add (ixr w) vs metas = Inr (ixr w') \<and> calls w' = c' \<and>
           bld w' = (bld w)\<lparr>total_chunks := total_chunks (bld w) + length texts\<rparr> \<and>
           dsk w' = dsk w \<and>
           trace w' = trace w @ [BatchStart metas,
                                 BatchIndexed (total_chunks (bld w) + length texts)]"
  using assms
  by (auto simp: process_batch_def emit_def Let_def split: prod.splits sum.splits)

lemma process_batch_err:
  assumes "process_batch ev w texts metas = (Some e, w')"
  shows "bld w' = bld w \<and> ixr w' = ixr w \<and> dsk w' = dsk w \<and>
         trace w' = trace w @ [BatchStart metas, BatchError]"
  using assms
  by (auto simp: process_batch_def emit_def Let_def split: prod.splits sum.splits)


text \<open>The body of the loop on each of its paths.\<close>

lemma process_doc_skip:
  "get_doc_id ev doc \<in> processed_ids (bld w) \<Longrightarrow>
   process_doc ev w ls doc = Some (None, w, ls\<lparr>docs_skipped := docs_skipped ls + 1\<rparr>)"
  by (simp add: process_doc_def Let_def)

lemma process_doc_blank:
  "get_doc_id ev doc \<notin> processed_ids (bld w) \<Longrightarrow> blank (get_or (doc_text doc) []) \<Longrightarrow>
   process_doc ev w ls doc = Some (None, w, ls)"
  by (simp add: process_doc_def Let_def)

lemma process_doc_diverges:
  "get_doc_id ev doc \<notin> processed_ids (bld w) \<Longrightarrow> \<not> blank (get_or (doc_text doc) []) \<Longrightarrow>
   chunk_text (env_encoder ev) (get_or (doc_text doc) []) (chunk_size (bld w))
     (chunk_overlap (bld w)) = None \<Longrightarrow>
   process_doc ev w ls doc = None"
  by (simp add: process_doc_def Let_def)

lemma process_doc_chunked:
  assumes "get_doc_id ev doc \<notin> processed_ids (bld w)"
    and "\<not> blank (get_or (doc_text doc) [])"
    and "chunk_text (env_encoder ev) (get_or (doc_text doc) []) (chunk_size (bld w))
           (chunk_overlap (bld w)) = Some chunks"
    and "ls1 = enqueue ls doc (get_doc_id ev doc) chunks"
    and "w1 = mark w (get_doc_id ev doc)"
  shows "process_doc ev w ls doc =
          (if int (length (batch_texts ls1)) \<ge> batch_size (bld w1) then
             (case process_batch ev w1 (batch_texts ls1) (batch_metadatas ls1) of
                (Some e, w2) \<Rightarrow> Some (Some e, w2, ls1)
              | (None, w2) \<Rightarrow>
                  (if batch_size (bld w2) * 10 = 0 then
                     Some (Some ZeroDivisionError, w2, cleared ls1)
                   else if int (docs_processed (cleared ls1)) mod (batch_size (bld w2) * 10) = 0
                   then Some (None, save_checkpoint w2 (docs_processed (cleared ls1)), cleared ls1)
                   else Some (None, w2, cleared ls1)))
           else Some (None, w1, ls1))"
  unfolding process_doc_def Let_def assms(4,5)
    enqueue_def [symmetric] mark_def [symmetric] cleared_def [symmetric]
  using assms(1-3) by simp

text \<open>The outcomes of the body of the loop, one for each path through it.\<close>

lemma process_doc_cases [consumes 1, case_names skipped blank queued flushed zero_div failed]:
  assumes "process_doc ev w ls doc = Some (err, w', ls')"
  obtains
    "get_doc_id ev doc \<in> processed_ids (bld w)" "err = None" "w' = w"
      "ls' = ls\<lparr>docs_skipped := docs_skipped ls + 1\<rparr>"
  | "get_doc_id ev doc \<notin> processed_ids (bld w)" "blank (get_or (doc_text doc) [])"
      "err = None" "w' = w" "ls' = ls"
  | chunks where
      "get_doc_id ev doc \<notin> processed_ids (bld w)" "\<not> blank (get_or (doc_text doc) [])"
      "chunk_text (env_encoder ev) (get_or (doc_text doc) []) (chunk_size (bld w))
         (chunk_overlap (bld w)) = Some chunks"
      "\<not> batch_size (bld w) \<le> int (length (batch_texts (enqueue ls doc (get_doc_id ev doc) chunks)))"
      "err = None" "w' = mark w (get_doc_id ev doc)"
      "ls' = enqueue ls doc (get_doc_id ev doc) chunks"
  | chunks w2 where
      "get_doc_id ev doc \<notin> processed_ids (bld w)" "\<not> blank (get_or (doc_text doc) [])"
      "chunk_text (env_encoder ev) (get_or (doc_text doc) []) (chunk_size (bld w))
         (chunk_overlap (bld w)) = Some chunks"
      "batch_size (bld w) \<le> int (length (batch_texts (enqueue ls doc (get_doc_id ev doc) chunks)))"
      "process_batch ev (mark w (get_doc_id ev doc))
         (batch_texts (enqueue ls doc (get_doc_id ev doc) chunks))
         (batch_metadatas (enqueue ls doc (get_doc_id ev doc) chunks)) = (None, w2)"
      "batch_size (bld w) \<noteq> 0" "err = None"
      "w' = (if int (docs_processed ls + 1) mod (batch_size (bld w) * 10) = 0
             then save_checkpoint w2 (docs_processed ls + 1) else w2)"
      "ls' = cleared (enqueue ls doc (get_doc_id ev doc) chunks)"
  | chunks where
      "get_doc_id ev doc \<notin> processed_ids (bld w)" "\<not> blank (get_or (doc_text doc) [])"
      "chunk_text (env_encoder ev) (get_or (doc_text doc) []) (chunk_size (bld w))
         (chunk_overlap (bld w)) = Some chunks"
      "batch_size (bld w) = 0"
      "process_batch ev (mark w (get_doc_id ev doc))
         (batch_texts (enqueue ls doc (get_doc_id ev doc) chunks))
         (batch_metadatas (enqueue ls doc (get_doc_id ev doc) chunks)) = (None, w')"
      "err = Some ZeroDivisionError"
      "ls' = cleared (enqueue ls doc (get_doc_id ev doc) chunks)"
  | chunks e where
      "get_doc_id ev doc \<notin> processed_ids (bld w)" "\<not> blank (get_or (doc_text doc) [])"
      "chunk_text (env_encoder ev) (get_or (doc_text doc) []) (chunk_size (bld w))
         (chunk_overlap (bld w)) = Some chunks"
      "batch_size (bld w) \<le> int (length (batch_texts (enqueue ls doc (get_doc_id ev doc) chunks)))"
      "process_batch ev (mark w (get_doc_id ev doc))
         (batch_texts (enqueue ls doc (get_doc_id ev doc) chunks))
         (batch_metadatas (enqueue ls doc (get_doc_id ev doc) chunks)) = (Some e, w')"
      "err = Some e" "ls' = enqueue ls doc (get_doc_id ev doc) chunks"
proof -
  let ?did = "get_doc_id ev doc" and ?text = "get_or (doc_text doc) []"
  show thesis
  proof (cases "?did \<in> processed_ids (bld w)")
    case True
    from assms [unfolded process_doc_skip [OF True]] show thesis
      by (intro that(1) [OF True]) simp_all
  next
    case nin: False
    show thesis
    proof (cases "blank ?text")
      case True
      from assms [unfolded process_doc_blank [OF nin True]] show thesis
        by (intro that(2) [OF nin True]) simp_all
    next
      case nb: False
      obtain chunks where
        ch: "chunk_text (env_encoder ev) ?text (chunk_size (bld w)) (chunk_overlap (bld w))
               = Some chunks"
        using assms process_doc_diverges [OF nin nb, where ls = ls]
        by (cases "chunk_text (env_encoder ev) ?text (chunk_size (bld w)) (chunk_overlap (bld w))")
          simp_all
      define ls1 where "ls1 = enqueue ls doc ?did chunks"
      define w1 where "w1 = mark w ?did"
      note unf = process_doc_chunked [OF nin nb ch ls1_def w1_def]
      have bs1: "batch_size (bld w1) = batch_size (bld w)" by (simp add: w1_def)
      show thesis
      proof (cases "batch_size (bld w) \<le> int (length (batch_texts ls1))")
        case False
        with assms unf bs1 have "err = None" "w' = w1" "ls' = ls1" by simp_all
        with False show thesis
          unfolding ls1_def w1_def by (intro that(3) [OF nin nb ch]) simp_all
      next
        case full: True
        obtain r w2 where pb:
          "process_batch ev w1 (batch_texts ls1) (batch_metadatas ls1) = (r, w2)"
          by (cases "process_batch ev w1 (batch_texts ls1) (batch_metadatas ls1)")
        show thesis
        proof (cases r)
          case (Some e)
          with assms unf bs1 full pb have "err = Some e" "w' = w2" "ls' = ls1" by simp_all
          with full pb Some show thesis
            unfolding ls1_def w1_def by (intro that(6) [OF nin nb ch]) simp_all
        next
          case None
          from process_batch_ok [OF pb [unfolded None]]
          have bs: "batch_size (bld w2) = batch_size (bld w)" using bs1 by auto
          have dp: "docs_processed (cleared ls1) = docs_processed ls + 1"
            by (simp add: ls1_def)
          show thesis
          proof (cases "batch_size (bld w) = 0")
            case True
            with assms unf bs1 full pb None bs
            have "err = Some ZeroDivisionError" "w' = w2" "ls' = cleared ls1" by simp_all
            with True pb None show thesis
              unfolding ls1_def w1_def by (intro that(5) [OF nin nb ch]) simp_all
          next
            case False
            with assms unf bs1 full pb None bs dp
            have "err = None" "ls' = cleared ls1"
              "w' = (if int (docs_processed ls + 1) mod (batch_size (bld w) * 10) = 0
                     then save_checkpoint w2 (docs_processed ls + 1) else w2)"
              by (simp_all split: if_splits)
            with False full pb None show thesis
              unfolding ls1_def w1_def by (intro that(4) [OF nin nb ch]) simp_all
          qed
        qed
      qed
    qed
  qed
qed

text \<open>Induction along the loop, for a property of the error and the state reached.\<close>

lemma doc_loop_induct [consumes 1, case_names init step]:
  assumes "doc_loop ev w ls docs = Some (err, w', ls')"
    and "P None w ls"
    and "\<And>w1 ls1 d e w2 ls2. P None w1 ls1 \<Longrightarrow> d \<in> set docs \<Longrightarrow>
           process_doc ev w1 ls1 d = Some (e, w2, ls2) \<Longrightarrow> P e w2 ls2"
  shows "P err w' ls'"
  using assms
proof (induction docs arbitrary: w ls)
  case Nil
  then show ?case by simp
next
  case (Cons d docs)
  from Cons.prems(1) obtain e w1 ls1 where
    s: "process_doc ev w ls d = Some (e, w1, ls1)"
    by (auto split: option.splits)
  have p1: "P e w1 ls1" by (rule Cons.prems(3) [OF Cons.prems(2) _ s]) simp
  show ?case
  proof (cases e)
    case (Some x)
    with Cons.prems(1) s p1 show ?thesis by simp
  next
    case None
    with Cons.prems(1) s have r: "doc_loop ev w1 ls1 docs = Some (err, w', ls')" by simp
    have st: "P e2 w3 ls3" if "P None w2 ls2" "d2 \<in> set docs"
      "process_doc ev w2 ls2 d2 = Some (e2, w3, ls3)" for w2 ls2 d2 e2 w3 ls3
      by (rule Cons.prems(3) [OF that(1) _ that(3)]) (simp add: that(2))
    show ?thesis
      using p1 None by (intro Cons.IH [OF r _ st]) simp_all
  qed
qed

text \<open>Unfolding for the evaluation of the model on concrete inputs.\<close>

lemmas run_defs =
  chunk_text_def char_encoder_def picky_encoder_def blank_def py_isspace_def chunk_loop.simps
  max_chunks_def py_slice_def str_nat.simps process_documents_def process_doc_def
  process_batch_def save_checkpoint_def emit_def get_doc_id_def get_or_def chunk_metadata_def
  embed_texts_def embed_batches.simps add_def FaissIndexer_def IncrementalIndexBuilder_def
  load_processed_ids_def env0_def env_down_def env_picky_def disk0_def world0_def doc_a_def
  doc_blank_def doc_special_def unit_service_def down_service_def normalize_L2_def
  inner_product_def Let_def embed_single_numeral embed_batch_numeral restart_def save_def load_def

subsection \<open>Counts of chunks\<close>

lemma add_lengths:
  "add ix vs ms = Inr ix' \<Longrightarrow>
   length (metadatas ix') = length (metadatas ix) + length ms \<and>
   length (ip_xb (index ix')) = length (ip_xb (index ix)) + length vs \<and>
   (\<exists>new. metadatas ix' = metadatas ix @ new)"
  by (auto simp: add_def split: if_splits)

text \<open>What a flush does to the counts, when it is given as many metadata as texts.\<close>

lemma process_batch_counts:
  assumes "length texts = length metas"
    and ok: "process_batch ev w texts metas = (None, w')"
  shows "length (metadatas (ixr w')) = length (metadatas (ixr w)) + length texts \<and>
         length (ip_xb (index (ixr w'))) = length (ip_xb (index (ixr w))) + length texts \<and>
         total_chunks (bld w') = total_chunks (bld w) + length texts \<and>
         (\<exists>new. metadatas (ixr w') = metadatas (ixr w) @ new)"
proof -
  from process_batch_ok [OF ok] obtain vs c' where
    e: "embed_texts (env_service ev) texts 3 (calls w) = (Inr vs, c')" and
    a: "add (ixr w) vs metas = Inr (ixr w')" and
    b: "bld w' = (bld w)\<lparr>total_chunks := total_chunks (bld w) + length texts\<rparr>"
    by blast
  have "length vs = length texts"
    using e embed_texts_length [of "env_service ev" texts 2 "calls w" vs c']
    by (simp add: numeral_3_eq_3)
  with add_lengths [OF a] assms(1) b show ?thesis by simp
qed

lemma in_step_mark [simp]: "in_step w (mark w1 i) = in_step w w1"
  by (simp add: in_step_def)

lemma in_step_save [simp]: "in_step w (save_checkpoint w1 n) = in_step w w1"
  by (simp add: in_step_def)

lemma in_step_flush:
  assumes "in_step w w1" and "length texts = length metas"
    and "process_batch ev w1 texts metas = (r, w2)"
  shows "in_step w w2"
proof (cases r)
  case None
  from process_batch_counts [OF assms(2) assms(3) [unfolded None]] assms(1)
  show ?thesis by (auto simp: in_step_def)
next
  case (Some e)
  from process_batch_err [OF assms(3) [unfolded Some]] assms(1)
  show ?thesis by (auto simp: in_step_def)
qed

lemma doc_loop_in_step:
  assumes "doc_loop ev w ls docs = Some (err, w', ls')"
    and "length (metadatas (ixr w)) = length (ip_xb (index (ixr w)))"
    and "length (batch_texts ls) = length (batch_metadatas ls)"
  shows "in_step w w' \<and> length (batch_texts ls') = length (batch_metadatas ls')"
  using assms(1)
proof (induction rule: doc_loop_induct
    [where P = "\<lambda>e w1 ls1. in_step w w1 \<and> length (batch_texts ls1) = length (batch_metadatas ls1)"])
  case init
  from assms(2,3) show ?case by (simp add: in_step_def)
next
  case (step w1 ls1 d e w2 ls2)
  from step(3) step(1) show ?case
  proof (cases rule: process_doc_cases)
    case (flushed chunks w3)
    have "in_step w w3"
      by (rule in_step_flush [OF _ _ flushed(5)]) (use step(1) in simp_all)
    with flushed show ?thesis by simp
  next
    case (zero_div chunks)
    have "in_step w w2"
      by (rule in_step_flush [OF _ _ zero_div(5)]) (use step(1) in simp_all)
    with zero_div show ?thesis by simp
  next
    case (failed chunks e')
    have "in_step w w2"
      by (rule in_step_flush [OF _ _ failed(5)]) (use step(1) in simp_all)
    with failed step(1) show ?thesis by simp
  qed simp_all
qed

text \<open>The three ends of \<^const>\<open>process_documents\<close>.\<close>

lemma process_documents_alt:
  "process_documents ev w docs =
     (case doc_loop ev w locals0 docs of
        None \<Rightarrow> None
      | Some (Some e, w', ls) \<Rightarrow> Some (Some e, w', ls)
      | Some (None, w', ls) \<Rightarrow>
          (case (if batch_texts ls \<noteq> []
                 then process_batch ev w' (batch_texts ls) (batch_metadatas ls)
                 else (None, w')) of
             (Some e, w'') \<Rightarrow> Some (Some e, w'', ls)
           | (None, w'') \<Rightarrow> Some (None, save_checkpoint w'' (docs_processed ls), ls)))"
  by (simp add: process_documents_def locals0_def)

lemma process_documents_cases [consumes 1, case_names loop_failed flush_failed completed]:
  assumes "process_documents ev w docs = Some (err, w', ls)"
  obtains e where "doc_loop ev w locals0 docs = Some (Some e, w', ls)" "err = Some e"
  | w1 e where "doc_loop ev w locals0 docs = Some (None, w1, ls)" "batch_texts ls \<noteq> []"
      "process_batch ev w1 (batch_texts ls) (batch_metadatas ls) = (Some e, w')" "err = Some e"
  | w1 w2 where "doc_loop ev w locals0 docs = Some (None, w1, ls)"
      "if batch_texts ls \<noteq> []
       then process_batch ev w1 (batch_texts ls) (batch_metadatas ls) = (None, w2)
       else w2 = w1"
      "w' = save_checkpoint w2 (docs_processed ls)" "err = None"
proof -
  from assms obtain e1 w1 ls1 where l: "doc_loop ev w locals0 docs = Some (e1, w1, ls1)"
    by (auto simp: process_documents_alt split: option.splits)
  show thesis
  proof (cases e1)
    case (Some e)
    with assms l have "err = Some e" "w' = w1" "ls = ls1"
      by (auto simp: process_documents_alt)
    with l Some that(1) show thesis by simp
  next
    case None
    note l0 = l [unfolded None]
    show thesis
    proof (cases "batch_texts ls1 = []")
      case True
      with assms l0 have "err = None" "w' = save_checkpoint w1 (docs_processed ls1)" "ls = ls1"
        by (auto simp: process_documents_alt)
      with l0 True show thesis by (intro that(3) [of w1 w1]) simp_all
    next
      case False
      obtain r w2 where pb:
        "process_batch ev w1 (batch_texts ls1) (batch_metadatas ls1) = (r, w2)"
        by (cases "process_batch ev w1 (batch_texts ls1) (batch_metadatas ls1)")
      show thesis
      proof (cases r)
        case (Some e)
        with assms l0 False pb have "err = Some e" "w' = w2" "ls = ls1"
          by (auto simp: process_documents_alt)
        with l0 False pb Some show thesis by (intro that(2) [of w1 e]) simp_all
      next
        case None
        with assms l0 False pb
        have "err = None" "w' = save_checkpoint w2 (docs_processed ls1)" "ls = ls1"
          by (auto simp: process_documents_alt)
        with l0 False pb None show thesis by (intro that(3) [of w1 w2]) simp_all
      qed
    qed
  qed
qed

text \<open>
  C10. A flush that succeeds on as many metadata as texts adds that many metadata
  records and that many vectors and raises \<open>total_chunks\<close> by the same number; a flush
  that fails changes neither the index nor \<open>total_chunks\<close>. So, for a run that starts
  with as many metadata as vectors: it ends, with or without an exception, with as
  many metadata as vectors, the metadata it began with still in front, and
  \<open>total_chunks\<close> has grown by the number of records added.
\<close>

theorem total_chunks_counts_records:
  assumes "process_documents ev w docs = Some (err, w', ls)"
    and "length (metadatas (ixr w)) = length (ip_xb (index (ixr w)))"
  shows "length (metadatas (ixr w')) = length (ip_xb (index (ixr w'))) \<and>
         total_chunks (bld w') + length (metadatas (ixr w)) =
           total_chunks (bld w) + length (metadatas (ixr w')) \<and>
         (\<exists>new. metadatas (ixr w') = metadatas (ixr w) @ new) \<and>
         (\<forall>w0 texts metas w1. length texts = length metas \<and>
            process_batch ev w0 texts metas = (None, w1) \<longrightarrow>
              length (metadatas (ixr w1)) = length (metadatas (ixr w0)) + length texts \<and>
              length (ip_xb (index (ixr w1))) = length (ip_xb (index (ixr w0))) + length texts \<and>
              total_chunks (bld w1) = total_chunks (bld w0) + length texts) \<and>
         (\<forall>w0 texts metas e w1. process_batch ev w0 texts metas = (Some e, w1) \<longrightarrow>
              total_chunks (bld w1) = total_chunks (bld w0) \<and> ixr w1 = ixr w0)"
proof -
  have "in_step w w'"
    using assms(1)
  proof (cases rule: process_documents_cases)
    case (loop_failed e)
    from doc_loop_in_step [OF loop_failed(1) assms(2)] show ?thesis
      by (simp add: locals0_def)
  next
    case (flush_failed w1 e)
    from doc_loop_in_step [OF flush_failed(1) assms(2)]
    have "in_step w w1" "length (batch_texts ls) = length (batch_metadatas ls)"
      by (simp_all add: locals0_def)
    then show ?thesis by (rule in_step_flush [OF _ _ flush_failed(3)])
  next
    case (completed w1 w2)
    from doc_loop_in_step [OF completed(1) assms(2)]
    have a: "in_step w w1" "length (batch_texts ls) = length (batch_metadatas ls)"
      by (simp_all add: locals0_def)
    have "in_step w w2"
    proof (cases "batch_texts ls = []")
      case True
      with completed(2) a(1) show ?thesis by simp
    next
      case False
      with completed(2) have "process_batch ev w1 (batch_texts ls) (batch_metadatas ls) = (None, w2)"
        by simp
      from in_step_flush [OF a this] show ?thesis .
    qed
    with completed(3) show ?thesis by simp
  qed
  moreover have "length (metadatas (ixr w1)) = length (metadatas (ixr w0)) + length texts \<and>
      length (ip_xb (index (ixr w1))) = length (ip_xb (index (ixr w0))) + length texts \<and>
      total_chunks (bld w1) = total_chunks (bld w0) + length texts"
    if "length texts = length metas \<and> process_batch ev w0 texts metas = (None, w1)"
    for w0 texts metas w1
    using process_batch_counts [of texts metas ev w0 w1] that by simp
  moreover have "total_chunks (bld w1) = total_chunks (bld w0) \<and> ixr w1 = ixr w0"
    if "process_batch ev w0 texts metas = (Some e, w1)" for w0 texts metas e w1
    using process_batch_err [OF that] by simp
  ultimately show ?thesis unfolding in_step_def by blast
qed

theorem total_chunks_counts_records_witness:
  "\<exists>w' ls. process_documents env0 world0 [doc_a] = Some (None, w', ls) \<and>
     length (metadatas (ixr world0)) = length (ip_xb (index (ixr world0))) \<and>
     length (metadatas (ixr w')) = 2 \<and> length (ip_xb (index (ixr w'))) = 2 \<and>
     total_chunks (bld w') = 2"
proof -
  have "\<exists>w' ls. process_documents env0 world0 [doc_a] = Some (None, w', ls) \<and>
          length (metadatas (ixr w')) = 2"
    by (simp add: run_defs)
  then obtain w' ls where run: "process_documents env0 world0 [doc_a] = Some (None, w', ls)"
    and two: "length (metadatas (ixr w')) = 2"
    by blast
  have lock: "length (metadatas (ixr world0)) = length (ip_xb (index (ixr world0)))"
    and zero: "total_chunks (bld world0) = 0" "metadatas (ixr world0) = []"
    by (simp_all add: world0_def FaissIndexer_def IncrementalIndexBuilder_def)
  from total_chunks_counts_records [OF run lock] two zero lock run show ?thesis by simp
qed

subsection \<open>The order of marking, embedding and checkpoints\<close>





lemma md_doc_id_chunk_metadata [simp]: "md_doc_id (chunk_metadata doc i c) = i"
  by (simp add: chunk_metadata_def)





subsection \<open>Documents with a blank text\<close>

lemma load_processed_ids_save [simp]:
  "load_processed_ids (dsk (save_checkpoint w n)) = processed_ids (bld w)"
  by (simp add: load_processed_ids_def)

text \<open>An id all of whose documents are blank is added neither in memory nor on disk.\<close>

lemma doc_loop_unmarked:
  assumes "doc_loop ev w ls docs = Some (err, w', ls')"
    and "i \<notin> processed_ids (bld w)" and "i \<notin> load_processed_ids (dsk w)"
    and "\<forall>d \<in> set docs. get_doc_id ev d = i \<longrightarrow> blank (get_or (doc_text d) [])"
  shows "i \<notin> processed_ids (bld w') \<and> i \<notin> load_processed_ids (dsk w')"
  using assms(1)
proof (induction rule: doc_loop_induct
    [where P = "\<lambda>e w1 ls1. i \<notin> processed_ids (bld w1) \<and> i \<notin> load_processed_ids (dsk w1)"])
  case init
  from assms(2,3) show ?case by simp
next
  case (step w1 ls1 d e w2 ls2)
  from step(3) show ?case
  proof (cases rule: process_doc_cases)
    case (queued chunks)
    with step(1,2) assms(4) show ?thesis by auto
  next
    case (flushed chunks w3)
    from process_batch_ok [OF flushed(5)] flushed(2) step(1,2) assms(4)
    have "i \<notin> processed_ids (bld w3) \<and> i \<notin> load_processed_ids (dsk w3)" by auto
    with flushed(8) show ?thesis by simp
  next
    case (zero_div chunks)
    from process_batch_ok [OF zero_div(5)] zero_div(2) step(1,2) assms(4)
    show ?thesis by auto
  next
    case (failed chunks e')
    from process_batch_err [OF failed(5)] failed(2) step(1,2) assms(4)
    show ?thesis by auto
  qed (use step(1) in simp_all)
qed

text \<open>Only documents with a text that is not blank are counted as processed.\<close>

lemma doc_loop_count:
  "doc_loop ev w ls docs = Some (err, w', ls') \<Longrightarrow>
   docs_processed ls' \<le>
     docs_processed ls + length (filter (\<lambda>d. \<not> blank (get_or (doc_text d) [])) docs)"
proof (induction docs arbitrary: w ls)
  case Nil
  then show ?case by simp
next
  case (Cons d docs)
  from Cons.prems obtain e w1 ls1 where s: "process_doc ev w ls d = Some (e, w1, ls1)"
    by (auto split: option.splits)
  have one: "docs_processed ls1 \<le>
      docs_processed ls + (if blank (get_or (doc_text d) []) then 0 else 1)"
    using s by (cases rule: process_doc_cases) simp_all
  show ?case
  proof (cases e)
    case (Some x)
    with Cons.prems s have "ls' = ls1" by simp
    with one show ?thesis by (simp split: if_splits)
  next
    case None
    with Cons.prems s have "doc_loop ev w1 ls1 docs = Some (err, w', ls')" by simp
    from Cons.IH [OF this] one show ?thesis by (simp split: if_splits)
  qed
qed

text \<open>
  C8. Let \<open>i\<close> be an id that is not yet in the set of processed ids, in memory or on
  disk, and let every document of the stream with that id have a blank text. Then
  after the run, however it ends, \<open>i\<close> is in neither set, so a builder started from
  the files does not know it; at most the documents with a text that is not blank
  have been counted as processed; and each time the loop meets such a document it
  passes it over, changing neither the state nor any counter. On any document with a
  blank text, whatever its id, the body of the loop leaves the state and the count of
  processed documents as they are.
\<close>

theorem blank_document_never_marked:
  assumes "process_documents ev w docs = Some (err, w', ls)"
    and "i \<notin> processed_ids (bld w)" and "i \<notin> load_processed_ids (dsk w)"
    and "\<forall>d \<in> set docs. get_doc_id ev d = i \<longrightarrow> blank (get_or (doc_text d) [])"
  shows "i \<notin> processed_ids (bld w') \<and>
         i \<notin> processed_ids (IncrementalIndexBuilder bs cs co (dsk w')) \<and>
         docs_processed ls \<le> length (filter (\<lambda>d. \<not> blank (get_or (doc_text d) [])) docs) \<and>
         (\<forall>w1 ls1 d. get_doc_id ev d = i \<and> i \<notin> processed_ids (bld w1) \<and>
            blank (get_or (doc_text d) []) \<longrightarrow>
              process_doc ev w1 ls1 d = Some (None, w1, ls1)) \<and>
         (\<forall>w1 ls1 d. blank (get_or (doc_text d) []) \<longrightarrow>
            (\<exists>ls2. process_doc ev w1 ls1 d = Some (None, w1, ls2) \<and>
               docs_processed ls2 = docs_processed ls1))"
proof -
  have a: "i \<notin> processed_ids (bld w') \<and> i \<notin> load_processed_ids (dsk w')"
    using assms(1)
  proof (cases rule: process_documents_cases)
    case (loop_failed e)
    from doc_loop_unmarked [OF loop_failed(1) assms(2-4)] show ?thesis .
  next
    case (flush_failed w1 e)
    from doc_loop_unmarked [OF flush_failed(1) assms(2-4)]
      process_batch_err [OF flush_failed(3)]
    show ?thesis by simp
  next
    case (completed w1 w2)
    from doc_loop_unmarked [OF completed(1) assms(2-4)]
    have u: "i \<notin> processed_ids (bld w1)" by simp
    have "processed_ids (bld w2) = processed_ids (bld w1)"
    proof (cases "batch_texts ls = []")
      case True
      with completed(2) show ?thesis by simp
    next
      case False
      with completed(2)
      have "process_batch ev w1 (batch_texts ls) (batch_metadatas ls) = (None, w2)" by simp
      from process_batch_ok [OF this] show ?thesis by auto
    qed
    with u completed(3) show ?thesis by simp
  qed
  have b: "docs_processed ls \<le> length (filter (\<lambda>d. \<not> blank (get_or (doc_text d) [])) docs)"
  proof -
    from assms(1) obtain e w1 where "doc_loop ev w locals0 docs = Some (e, w1, ls)"
      by (cases rule: process_documents_cases) auto
    from doc_loop_count [OF this] show ?thesis by (simp add: locals0_def)
  qed
  have c: "process_doc ev w1 ls1 d = Some (None, w1, ls1)"
    if "get_doc_id ev d = i \<and> i \<notin> processed_ids (bld w1) \<and> blank (get_or (doc_text d) [])"
    for w1 ls1 d
    using that process_doc_blank [of ev d w1 ls1] by simp
  have d: "\<exists>ls2. process_doc ev w1 ls1 d = Some (None, w1, ls2) \<and>
             docs_processed ls2 = docs_processed ls1"
    if "blank (get_or (doc_text d) [])" for w1 ls1 d
    using that process_doc_blank [of ev d w1 ls1] process_doc_skip [of ev d w1 ls1]
    by (cases "get_doc_id ev d \<in> processed_ids (bld w1)") simp_all
  from a b c d show ?thesis
    by (simp add: IncrementalIndexBuilder_def)
qed

theorem blank_document_never_marked_witness:
  "\<exists>w' ls. process_documents env0 world0 [doc_a, doc_blank] = Some (None, w', ls) \<and>
     get_doc_id env0 doc_blank = ''b'' \<and> blank (get_or (doc_text doc_blank) []) \<and>
     ''b'' \<notin> processed_ids (bld world0) \<and> ''b'' \<notin> load_processed_ids (dsk world0) \<and>
     ''b'' \<notin> processed_ids (bld w') \<and>
     ''b'' \<notin> processed_ids (IncrementalIndexBuilder 2 4 0 (dsk w')) \<and>
     docs_processed ls \<le> 1"
proof -
  have "\<exists>w' ls. process_documents env0 world0 [doc_a, doc_blank] = Some (None, w', ls)"
    by (simp add: run_defs)
  then obtain w' ls where
    run: "process_documents env0 world0 [doc_a, doc_blank] = Some (None, w', ls)"
    by blast
  have h: "''b'' \<notin> processed_ids (bld world0)" "''b'' \<notin> load_processed_ids (dsk world0)"
    "get_doc_id env0 doc_blank = ''b''" "blank (get_or (doc_text doc_blank) [])"
    "get_doc_id env0 doc_a = ''a''" "\<not> blank (get_or (doc_text doc_a) [])"
    by (simp_all add: run_defs)
  then have all: "\<forall>d \<in> set [doc_a, doc_blank].
      get_doc_id env0 d = ''b'' \<longrightarrow> blank (get_or (doc_text d) [])"
    by simp
  from blank_document_never_marked [OF run h(1,2) all, of 2 4 0] h run show ?thesis
    by simp
qed

subsection \<open>A second run over the same stream\<close>

text \<open>After the body of the loop the id of a document with a text is marked.\<close>

lemma process_doc_marks:
  assumes "process_doc ev w ls d = Some (e, w1, ls1)"
  shows "processed_ids (bld w) \<subseteq> processed_ids (bld w1) \<and>
         (\<not> blank (get_or (doc_text d) []) \<longrightarrow> get_doc_id ev d \<in> processed_ids (bld w1))"
  using assms
proof (cases rule: process_doc_cases)
  case (flushed chunks w3)
  from process_batch_ok [OF flushed(5)] flushed(8) show ?thesis by auto
next
  case (zero_div chunks)
  from process_batch_ok [OF zero_div(5)] show ?thesis by auto
next
  case (failed chunks e')
  from process_batch_err [OF failed(5)] show ?thesis by auto
qed auto

lemma doc_loop_marks:
  "doc_loop ev w ls docs = Some (None, w', ls') \<Longrightarrow>
   processed_ids (bld w) \<subseteq> processed_ids (bld w') \<and>
   (\<forall>d \<in> set docs. \<not> blank (get_or (doc_text d) []) \<longrightarrow>
      get_doc_id ev d \<in> processed_ids (bld w'))"
proof (induction docs arbitrary: w ls)
  case Nil
  then show ?case by simp
next
  case (Cons d docs)
  from Cons.prems obtain w1 ls1 where s: "process_doc ev w ls d = Some (None, w1, ls1)"
    and r: "doc_loop ev w1 ls1 docs = Some (None, w', ls')"
    by (auto split: option.splits prod.splits)
  from process_doc_marks [OF s] Cons.IH [OF r] show ?case by auto
qed

text \<open>A stream of documents that are known or blank changes only the count of skips.\<close>

lemma doc_loop_known:
  "\<forall>d \<in> set docs. get_doc_id ev d \<in> processed_ids (bld w) \<or> blank (get_or (doc_text d) []) \<Longrightarrow>
   doc_loop ev w ls docs =
     Some (None, w,
       ls\<lparr>docs_skipped := docs_skipped ls +
            length (filter (\<lambda>d. get_doc_id ev d \<in> processed_ids (bld w)) docs)\<rparr>)"
proof (induction docs arbitrary: ls)
  case Nil
  then show ?case by simp
next
  case (Cons d docs)
  show ?case
  proof (cases "get_doc_id ev d \<in> processed_ids (bld w)")
    case True
    with Cons show ?thesis by (simp add: process_doc_skip)
  next
    case False
    with Cons.prems have "blank (get_or (doc_text d) [])" by simp
    with False Cons show ?thesis by (simp add: process_doc_blank)
  qed
qed

lemma restart_simps [simp]:
  "processed_ids (bld (restart bs cs co dm w)) = load_processed_ids (dsk w)"
  "total_chunks (bld (restart bs cs co dm w)) = 0"
  "index (ixr (restart bs cs co dm w)) = index (ixr w)"
  "metadatas (ixr (restart bs cs co dm w)) = metadatas (ixr w)"
  "calls (restart bs cs co dm w) = calls w"
  by (simp_all add: restart_def Let_def IncrementalIndexBuilder_def load_def save_def
      load_processed_ids_def)

text \<open>
  C4, as the code has it. After a run over a stream that ended without exception, the
  indexer is saved and the next run is started on the files. That run over the same
  stream ends without exception too; it calls the embedding service not once and
  leaves the index and its metadata as they were, with \<open>total_chunks = 0\<close> and no
  document processed; the ids it knows are those of the first run, among them the id
  of every document with a text that is not blank; and it counts as skipped exactly
  the documents whose id it knows. A document with a blank text and an id of its own
  is passed over without being counted.
\<close>

theorem second_run_adds_nothing:
  assumes "process_documents ev w docs = Some (None, w1, ls1)"
  shows "\<exists>w2 ls2. process_documents ev (restart bs cs co dm w1) docs = Some (None, w2, ls2) \<and>
           index (ixr w2) = index (ixr w1) \<and> metadatas (ixr w2) = metadatas (ixr w1) \<and>
           calls w2 = calls w1 \<and> total_chunks (bld w2) = 0 \<and> docs_processed ls2 = 0 \<and>
           processed_ids (bld w2) = processed_ids (bld w1) \<and>
           (\<forall>d \<in> set docs. \<not> blank (get_or (doc_text d) []) \<longrightarrow>
              get_doc_id ev d \<in> processed_ids (bld w1)) \<and>
           docs_skipped ls2 =
             length (filter (\<lambda>d. get_doc_id ev d \<in> processed_ids (bld w1)) docs)"
proof -
  let ?w = "restart bs cs co dm w1"
  from assms obtain w0 w0' where l: "doc_loop ev w locals0 docs = Some (None, w0, ls1)"
    and f: "if batch_texts ls1 \<noteq> []
            then process_batch ev w0 (batch_texts ls1) (batch_metadatas ls1) = (None, w0')
            else w0' = w0"
    and w1: "w1 = save_checkpoint w0' (docs_processed ls1)"
    by (cases rule: process_documents_cases) auto
  have p0: "processed_ids (bld w0') = processed_ids (bld w0)"
  proof (cases "batch_texts ls1 = []")
    case True
    with f show ?thesis by simp
  next
    case False
    with f have "process_batch ev w0 (batch_texts ls1) (batch_metadatas ls1) = (None, w0')"
      by simp
    from process_batch_ok [OF this] show ?thesis by auto
  qed
  have ids: "load_processed_ids (dsk w1) = processed_ids (bld w1)"
    using w1 by simp
  have known: "\<forall>d \<in> set docs. \<not> blank (get_or (doc_text d) []) \<longrightarrow>
      get_doc_id ev d \<in> processed_ids (bld w1)"
    using doc_loop_marks [OF l] p0 w1 by simp
  have lp: "load_processed_ids (dsk (restart bs cs co dm w1)) = processed_ids (bld w1)"
    using ids by (simp add: restart_def Let_def save_def load_processed_ids_def)
  have pw: "processed_ids (bld ?w) = processed_ids (bld w1)"
    using ids by simp
  have "\<forall>d \<in> set docs. get_doc_id ev d \<in> processed_ids (bld ?w) \<or> blank (get_or (doc_text d) [])"
    using known pw by auto
  from doc_loop_known [OF this, of locals0]
  have "process_documents ev ?w docs =
      Some (None, save_checkpoint ?w 0,
        locals0\<lparr>docs_skipped :=
          length (filter (\<lambda>d. get_doc_id ev d \<in> processed_ids (bld w1)) docs)\<rparr>)"
    by (simp add: process_documents_alt ids) (simp add: locals0_def ids)
  with known show ?thesis
    by (simp add: locals0_def ids)
qed

theorem second_run_adds_nothing_witness:
  "\<exists>w1 ls1 w2 ls2.
     process_documents env0 world0 [doc_a, doc_blank] = Some (None, w1, ls1) \<and>
     process_documents env0 (restart 2 4 0 2 w1) [doc_a, doc_blank] = Some (None, w2, ls2) \<and>
     metadatas (ixr w2) = metadatas (ixr w1) \<and> length (metadatas (ixr w1)) = 2 \<and>
     docs_processed ls2 = 0 \<and> docs_skipped ls2 = 1"
proof -
  have "\<exists>w1 ls1. process_documents env0 world0 [doc_a, doc_blank] = Some (None, w1, ls1) \<and>
          processed_ids (bld w1) = {''a''} \<and> length (metadatas (ixr w1)) = 2"
    by (simp add: run_defs)
  then obtain w1 ls1 where
    run: "process_documents env0 world0 [doc_a, doc_blank] = Some (None, w1, ls1)"
    and p: "processed_ids (bld w1) = {''a''}" "length (metadatas (ixr w1)) = 2"
    by blast
  have ids: "get_doc_id env0 doc_a = ''a''" "get_doc_id env0 doc_blank = ''b''"
    by (simp_all add: run_defs)
  from second_run_adds_nothing [OF run, of 2 4 0 2] obtain w2 ls2 where
    "process_documents env0 (restart 2 4 0 2 w1) [doc_a, doc_blank] = Some (None, w2, ls2)"
    "metadatas (ixr w2) = metadatas (ixr w1)" "docs_processed ls2 = 0"
    "docs_skipped ls2 =
       length (filter (\<lambda>d. get_doc_id env0 d \<in> processed_ids (bld w1)) [doc_a, doc_blank])"
    by blast
  with run p ids show ?thesis by simp
qed

text \<open>
  C4 as stated fails for a stream with a blank document: the first run over the one
  document \<open>doc_blank\<close> ends without exception, and the second run on the files
  reports no document as skipped.
\<close>

theorem second_run_adds_nothing_counterexample:
  "map_option fst (process_documents env0 world0 [doc_blank]) = Some None \<and>
   map_option (docs_skipped \<circ> snd \<circ> snd)
     (process_documents env0 (restart 2 4 0 2 after_blank_run) [doc_blank]) = Some 0 \<and>
   length [doc_blank] = 1"
  by (simp add: after_blank_run_def run_defs)

subsection \<open>Documents the tokenizer rejects\<close>

text \<open>
  C9 on the code. The tokenizer rejects the text of \<open>doc_special\<close>, so the chunker
  returns no chunk. The run goes on to its end without exception and adds nothing to
  the index, but the document is counted as processed, not as skipped, and its id is
  written to the checkpoint, so that no later run looks at it again.
\<close>

theorem untokenizable_document_marked:
  "chunk_text picky_encoder ''<|endoftext|>'' 4 0 = Some [] \<and>
   map_option fst (process_documents env_picky world0 [doc_special]) = Some None \<and>
   map_option (docs_processed \<circ> snd \<circ> snd) (process_documents env_picky world0 [doc_special])
     = Some 1 \<and>
   map_option (docs_skipped \<circ> snd \<circ> snd) (process_documents env_picky world0 [doc_special])
     = Some 0 \<and>
   map_option (metadatas \<circ> ixr \<circ> fst \<circ> snd) (process_documents env_picky world0 [doc_special])
     = Some [] \<and>
   map_option (processed_ids \<circ> bld \<circ> fst \<circ> snd)
     (process_documents env_picky world0 [doc_special]) = Some {''s''} \<and>
   map_option (ids_file \<circ> dsk \<circ> fst \<circ> snd)
     (process_documents env_picky world0 [doc_special]) = Some (Some {''s''})"
  by (simp add: run_defs)

subsection \<open>A run returns\<close>

text \<open>
  With a tokenizer whose \<open>decode\<close> never fails the chunker returns, and so do the body
  of the loop, the loop and the run, with or without an exception.
\<close>

lemma chunk_text_returns:
  assumes "\<And>ts. decode enc ts \<noteq> None"
  shows "\<exists>chunks. chunk_text enc text m ov = Some chunks"
proof (cases "blank text \<or> encode enc text = None \<or> encode enc text = Some []")
  case True
  then show ?thesis by (auto simp: chunk_text_def)
next
  case False
  then obtain tokens where "encode enc text = Some tokens" "tokens \<noteq> []" "\<not> blank text"
    by auto
  from chunk_text_spans [OF assms this(3,1,2)] show ?thesis by blast
qed

lemma process_doc_returns:
  assumes "\<And>ts. decode (env_encoder ev) ts \<noteq> None"
  shows "\<exists>r. process_doc ev w ls doc = Some r"
proof (cases "get_doc_id ev doc \<in> processed_ids (bld w)")
  case True
  then show ?thesis by (simp add: process_doc_skip)
next
  case nin: False
  show ?thesis
  proof (cases "blank (get_or (doc_text doc) [])")
    case True
    with nin show ?thesis by (simp add: process_doc_blank)
  next
    case nb: False
    from chunk_text_returns [OF assms] obtain chunks where
      "chunk_text (env_encoder ev) (get_or (doc_text doc) []) (chunk_size (bld w))
         (chunk_overlap (bld w)) = Some chunks"
      by blast
    from process_doc_chunked [OF nin nb this refl refl, of ls] show ?thesis
      by (auto split: prod.splits option.splits)
  qed
qed

lemma doc_loop_returns:
  assumes "\<And>ts. decode (env_encoder ev) ts \<noteq> None"
  shows "\<exists>r. doc_loop ev w ls docs = Some r"
proof (induction docs arbitrary: w ls)
  case Nil
  then show ?case by simp
next
  case (Cons d docs)
  from process_doc_returns [OF assms, of w ls d] obtain e w1 ls1 where
    s: "process_doc ev w ls d = Some (e, w1, ls1)"
    by (metis prod_cases3)
  show ?case
  proof (cases e)
    case None
    with s Cons.IH [of w1 ls1] show ?thesis by simp
  next
    case (Some x)
    with s show ?thesis by simp
  qed
qed

lemma process_documents_returns:
  assumes "\<And>ts. decode (env_encoder ev) ts \<noteq> None"
  shows "\<exists>r. process_documents ev w docs = Some r"
proof -
  from doc_loop_returns [OF assms, of w locals0 docs] obtain e w1 ls1 where
    "doc_loop ev w locals0 docs = Some (e, w1, ls1)"
    by (metis prod_cases3)
  then show ?thesis
    by (auto simp: process_documents_alt split: option.splits prod.splits)
qed

end
